theory Spec2Isabelle
  imports Main "HOL-Library.Word"
begin

unbundle bit_operations_syntax

section \<open>Scalars and memory\<close>

text \<open>
  The kernels work on C \<^verbatim>\<open>float\<close> (IEEE 754 binary32) and on 16-bit integers, through raw
  pointers indexed with \<^verbatim>\<open>uint32_t\<close> arithmetic. Index arithmetic is modelled with
  \<open>32 word\<close> (it wraps as on the 32-bit target); a pointer is the number of the
  first scalar it points to in a flat store, and \<^verbatim>\<open>p[i]\<close> is the store at
  \<open>p + unat i\<close>.
\<close>

type_synonym u32 = "32 word"
type_synonym i16 = "16 word"
type_synonym i32 = "32 word"

text \<open>
  binary32 values: \<open>Finite s m e\<close> is \<open>(-1)^s * m * 2^e\<close>, kept canonical
  (\<open>m < 2^24\<close>, \<open>-149 \<le> e \<le> 104\<close>, and \<open>2^23 \<le> m\<close> unless \<open>e = -149\<close>), so that
  equality of two values is equality of their bit patterns (NaN payloads apart).
\<close>

datatype f32 = Finite bool nat int | Infinity bool | NaN

fun bitlen :: "nat \<Rightarrow> nat" where
  "bitlen n = (if n = 0 then 0 else Suc (bitlen (n div 2)))"

declare bitlen.simps [simp del]

text \<open>Round the exact value \<open>(-1)^s * n * 2^k\<close> to nearest, ties to even.\<close>

definition round_f32 :: "bool \<Rightarrow> nat \<Rightarrow> int \<Rightarrow> f32" where
  "round_f32 s n k =
     (if n = 0 then Finite s 0 (- 149)
      else
        let e = max (k + int (bitlen n) - 24) (- 149) in
        if e \<le> k then
          (if 104 < e then Infinity s else Finite s (n * 2 ^ nat (k - e)) e)
        else
          let sh = nat (e - k);
              q = n div 2 ^ sh;
              r = n mod 2 ^ sh;
              half = 2 ^ (sh - 1);
              q' = (if half < r \<or> (r = half \<and> odd q) then q + 1 else q);
              m = (if q' = 2 ^ 24 then 2 ^ 23 else q');
              e' = (if q' = 2 ^ 24 then e + 1 else e)
          in if 104 < e' then Infinity s else Finite s m e')"

definition f32_zero :: f32 where
  "f32_zero = Finite False 0 (- 149)"

definition f32_of_int :: "int \<Rightarrow> f32" where
  "f32_of_int i = round_f32 (i < 0) (nat \<bar>i\<bar>) 0"

fun f32_neg :: "f32 \<Rightarrow> f32" where
  "f32_neg (Finite s m e) = Finite (\<not> s) m e"
| "f32_neg (Infinity s) = Infinity (\<not> s)"
| "f32_neg NaN = NaN"

fun f32_mul :: "f32 \<Rightarrow> f32 \<Rightarrow> f32" where
  "f32_mul (Finite s1 m1 e1) (Finite s2 m2 e2) = round_f32 (s1 \<noteq> s2) (m1 * m2) (e1 + e2)"
| "f32_mul (Finite s1 m1 e1) (Infinity s2) = (if m1 = 0 then NaN else Infinity (s1 \<noteq> s2))"
| "f32_mul (Infinity s1) (Finite s2 m2 e2) = (if m2 = 0 then NaN else Infinity (s1 \<noteq> s2))"
| "f32_mul (Infinity s1) (Infinity s2) = Infinity (s1 \<noteq> s2)"
| "f32_mul NaN _ = NaN"
| "f32_mul _ NaN = NaN"

fun f32_add :: "f32 \<Rightarrow> f32 \<Rightarrow> f32" where
  "f32_add (Finite s1 m1 e1) (Finite s2 m2 e2) =
     (let e = min e1 e2;
          v = (if s1 then - int m1 else int m1) * 2 ^ nat (e1 - e)
            + (if s2 then - int m2 else int m2) * 2 ^ nat (e2 - e)
      in if v = 0 then Finite (s1 \<and> s2) 0 (- 149) else round_f32 (v < 0) (nat \<bar>v\<bar>) e)"
| "f32_add (Finite s1 m1 e1) (Infinity s2) = Infinity s2"
| "f32_add (Infinity s1) (Finite s2 m2 e2) = Infinity s1"
| "f32_add (Infinity s1) (Infinity s2) = (if s1 = s2 then Infinity s1 else NaN)"
| "f32_add NaN _ = NaN"
| "f32_add _ NaN = NaN"

definition f32_sub :: "f32 \<Rightarrow> f32 \<Rightarrow> f32" where
  "f32_sub a b = f32_add a (f32_neg b)"

type_synonym mem = "nat \<Rightarrow> f32"

definition mem_of_list :: "f32 list \<Rightarrow> mem" where
  "mem_of_list xs = (\<lambda>a. if a < length xs then xs ! a else f32_zero)"

text \<open>
  A loop counter below its bound does not wrap when it is incremented; the termination
  proofs of the counted loops use this.
\<close>

lemma unat_less_Suc: "(n :: u32) < b \<Longrightarrow> unat (n + 1) = Suc (unat n)"
proof -
  assume "n < b"
  then have "unat n < unat b" by (simp add: word_less_nat_alt)
  moreover have "unat b < 2 ^ 32" using unsigned_less [of b, where ?'a = nat] by simp
  ultimately have "unat n + unat (1 :: u32) < 2 ^ LENGTH(32)" by simp
  then have "unat (n + 1) = unat n + unat (1 :: u32)" by (simp only: unat_add_lem)
  then show ?thesis by simp
qed


section \<open>Parallel strided matrix scale (plp\_mat\_scale\_stride\_f32p\_xpulpv2)\<close>

text \<open>
  The job descriptor \<^verbatim>\<open>plp_mat_scale_stride_instance_f32\<close> is declared in
  \<^verbatim>\<open>plp_math.h\<close>, which is not among the sources at hand; its fields are the ones the kernel
  reads through \<^verbatim>\<open>a->\<close>, with the types of the locals they initialise (\<^verbatim>\<open>a->M\<close> is
  \<open>a_M\<close>, and so on).
\<close>

record plp_mat_scale_stride_instance_f32 =
  a_pSrc :: nat
  a_M :: u32
  a_N :: u32
  a_strideSrc :: u32
  a_strideDst :: u32
  a_scaleFactor :: f32
  a_nPE :: u32
  a_pDst :: nat

text \<open>
  The kernel first copies the fields of the descriptor into locals; the loops work on the
  locals. The inner loop is
  \<^verbatim>\<open>for (int n = 0; n < N; n++) { val = pSrc[m*strideSrc + n] * scaleFactor;
  pDst[m*strideDst + n] = val; }\<close>. The comparison of the \<^verbatim>\<open>int\<close> counter with the
  \<^verbatim>\<open>uint32_t\<close> bound is unsigned, so the counter is a \<open>32 word\<close>.
\<close>

function scale_cols :: "nat \<Rightarrow> u32 \<Rightarrow> u32 \<Rightarrow> u32 \<Rightarrow> f32 \<Rightarrow> nat \<Rightarrow> u32 \<Rightarrow> u32 \<Rightarrow> mem \<Rightarrow> mem" where
  "scale_cols pSrc N strideSrc strideDst scaleFactor pDst m n s =
     (if n < N then
        let val = f32_mul (s (pSrc + unat (m * strideSrc + n))) scaleFactor
        in scale_cols pSrc N strideSrc strideDst scaleFactor pDst m (n + 1)
             (s(pDst + unat (m * strideDst + n) := val))
      else s)"
  by pat_completeness auto
termination
  by (relation "measure (\<lambda>(pSrc, N, strideSrc, strideDst, scaleFactor, pDst, m, n, s).
        unat N - unat n)")
     (auto simp: unat_less_Suc word_less_nat_alt)

declare scale_cols.simps [simp del]

text \<open>
  \<^verbatim>\<open>for (int m = core_id; m < M; m += nPE) body\<close>. \<^verbatim>\<open>m += nPE\<close> adds a \<^verbatim>\<open>uint32_t\<close>, so it
  wraps modulo \<open>2^32\<close>; nothing bounds the number of iterations, so the loop is a partial
  function and \<open>None\<close> means that it does not return.
\<close>

partial_function (option) row_loop ::
  "u32 \<Rightarrow> u32 \<Rightarrow> (u32 \<Rightarrow> 'st \<Rightarrow> 'st) \<Rightarrow> u32 \<Rightarrow> 'st \<Rightarrow> 'st option" where
  "row_loop M nPE body m st =
     (if m < M then row_loop M nPE body (m + nPE) (body m st) else Some st)"

definition plp_mat_scale_stride_f32p_xpulpv2 ::
  "u32 \<Rightarrow> plp_mat_scale_stride_instance_f32 \<Rightarrow> mem \<Rightarrow> mem option" where
  "plp_mat_scale_stride_f32p_xpulpv2 core_id a s =
     (let pSrc = a_pSrc a; M = a_M a; N = a_N a;
          strideSrc = a_strideSrc a; strideDst = a_strideDst a;
          scaleFactor = a_scaleFactor a; nPE = a_nPE a; pDst = a_pDst a
      in row_loop M nPE (\<lambda>m. scale_cols pSrc N strideSrc strideDst scaleFactor pDst m 0) core_id s)"

text \<open>The rows a worker runs its loop body on, in the order it reaches them.\<close>

definition worker_rows :: "u32 \<Rightarrow> u32 \<Rightarrow> u32 \<Rightarrow> u32 list option" where
  "worker_rows core_id M nPE = row_loop M nPE (\<lambda>m rs. rs @ [m]) core_id []"


section \<open>Complex strided matrix multiplication (plp\_mat\_mult\_cmplx\_stride\_f32s\_xpulpv2)\<close>

text \<open>
  The innermost loop, \<^verbatim>\<open>for (int n = 0; n < N; n++)\<close>, reads the complex elements
  \<open>A[m,n]\<close> and \<open>B[n,o]\<close> and accumulates their product into
  \<open>(sum_re, sum_im)\<close>.
\<close>

function n_loop ::
  "mem \<Rightarrow> nat \<Rightarrow> nat \<Rightarrow> u32 \<Rightarrow> u32 \<Rightarrow> u32 \<Rightarrow> u32 \<Rightarrow> u32 \<Rightarrow> u32 \<Rightarrow> f32 \<times> f32 \<Rightarrow> f32 \<times> f32"
  where
  "n_loop s pSrcA pSrcB N strideA strideB m oc n (sum_re, sum_im) =
     (if n < N then
        let a_re = s (pSrcA + unat ((m * strideA + n) * 2 + 0));
            a_im = s (pSrcA + unat ((m * strideA + n) * 2 + 1));
            b_re = s (pSrcB + unat ((n * strideB + oc) * 2 + 0));
            b_im = s (pSrcB + unat ((n * strideB + oc) * 2 + 1))
        in n_loop s pSrcA pSrcB N strideA strideB m oc (n + 1)
             (f32_add sum_re (f32_sub (f32_mul a_re b_re) (f32_mul a_im b_im)),
              f32_add sum_im (f32_add (f32_mul a_re b_im) (f32_mul a_im b_re)))
      else (sum_re, sum_im))"
  by pat_completeness auto
termination
  by (relation "measure (\<lambda>(s, pSrcA, pSrcB, N, strideA, strideB, m, oc, n, acc). unat N - unat n)")
     (auto simp: unat_less_Suc word_less_nat_alt)

declare n_loop.simps [simp del]

text \<open>
  \<^verbatim>\<open>for (int o = 0; o < O; o++)\<close> (the source's \<^verbatim>\<open>o\<close> and \<^verbatim>\<open>O\<close> are written \<open>oc\<close> and
  \<open>OC\<close>: both letters are infix operators of HOL): both sums start at \<^verbatim>\<open>0\<close> and are stored, real part
  first, at \<^verbatim>\<open>pDstC[(m * strideC + o) * 2 + 0]\<close> and \<^verbatim>\<open>+ 1\<close>.
\<close>

function o_loop ::
  "nat \<Rightarrow> nat \<Rightarrow> u32 \<Rightarrow> u32 \<Rightarrow> u32 \<Rightarrow> u32 \<Rightarrow> u32 \<Rightarrow> nat \<Rightarrow> u32 \<Rightarrow> u32 \<Rightarrow> mem \<Rightarrow> mem"
  where
  "o_loop pSrcA pSrcB N OC strideA strideB strideC pDstC m oc s =
     (if oc < OC then
        let (sum_re, sum_im) = n_loop s pSrcA pSrcB N strideA strideB m oc 0 (f32_zero, f32_zero)
        in o_loop pSrcA pSrcB N OC strideA strideB strideC pDstC m (oc + 1)
             (s(pDstC + unat ((m * strideC + oc) * 2 + 0) := sum_re,
                pDstC + unat ((m * strideC + oc) * 2 + 1) := sum_im))
      else s)"
  by pat_completeness auto
termination
  by (relation "measure (\<lambda>(pSrcA, pSrcB, N, OC, strideA, strideB, strideC, pDstC, m, oc, s).
        unat OC - unat oc)")
     (auto simp: unat_less_Suc word_less_nat_alt)

declare o_loop.simps [simp del]

text \<open>\<^verbatim>\<open>for (int m = 0; m < M; m++)\<close>.\<close>

function m_loop ::
  "nat \<Rightarrow> nat \<Rightarrow> u32 \<Rightarrow> u32 \<Rightarrow> u32 \<Rightarrow> u32 \<Rightarrow> u32 \<Rightarrow> u32 \<Rightarrow> nat \<Rightarrow> u32 \<Rightarrow> mem \<Rightarrow> mem"
  where
  "m_loop pSrcA pSrcB M N OC strideA strideB strideC pDstC m s =
     (if m < M then
        m_loop pSrcA pSrcB M N OC strideA strideB strideC pDstC (m + 1)
          (o_loop pSrcA pSrcB N OC strideA strideB strideC pDstC m 0 s)
      else s)"
  by pat_completeness auto
termination
  by (relation "measure (\<lambda>(pSrcA, pSrcB, M, N, OC, strideA, strideB, strideC, pDstC, m, s).
        unat M - unat m)")
     (auto simp: unat_less_Suc word_less_nat_alt)

declare m_loop.simps [simp del]

definition plp_mat_mult_cmplx_stride_f32s_xpulpv2 ::
  "nat \<Rightarrow> nat \<Rightarrow> u32 \<Rightarrow> u32 \<Rightarrow> u32 \<Rightarrow> u32 \<Rightarrow> u32 \<Rightarrow> u32 \<Rightarrow> nat \<Rightarrow> mem \<Rightarrow> mem" where
  "plp_mat_mult_cmplx_stride_f32s_xpulpv2 pSrcA pSrcB M N OC strideA strideB strideC pDstC s =
     m_loop pSrcA pSrcB M N OC strideA strideB strideC pDstC 0 s"

section \<open>Dispatcher (plp\_mat\_mult\_cmplx\_stride\_i32)\<close>

text \<open>
  The glue code asks the run-time which cluster executes the call and forwards its nine
  arguments to one of two kernels. Neither kernel, nor \<^verbatim>\<open>rt_cluster_id\<close>, nor the
  constant \<^verbatim>\<open>ARCHI_FC_CID\<close> is defined in the sources at hand, so they are parameters:
  \<open>rt_cluster_id\<close> reads the identity of the executing unit off the machine state
  \<open>'w\<close>, and a kernel maps the machine state before the call to the one after it.
\<close>

type_synonym 'w i32_kernel =
  "nat \<Rightarrow> nat \<Rightarrow> u32 \<Rightarrow> u32 \<Rightarrow> u32 \<Rightarrow> u32 \<Rightarrow> u32 \<Rightarrow> u32 \<Rightarrow> nat \<Rightarrow> 'w \<Rightarrow> 'w"

definition plp_mat_mult_cmplx_stride_i32 ::
  "('w \<Rightarrow> int) \<Rightarrow> int \<Rightarrow> 'w i32_kernel \<Rightarrow> 'w i32_kernel \<Rightarrow> 'w i32_kernel" where
  "plp_mat_mult_cmplx_stride_i32 rt_cluster_id ARCHI_FC_CID
       plp_mat_mult_cmplx_stride_i32s_rv32im plp_mat_mult_cmplx_stride_i32s_xpulpv2
       pSrcA pSrcB M N OC strideA strideB strideC pDstC w =
     (if rt_cluster_id w = ARCHI_FC_CID then
        plp_mat_mult_cmplx_stride_i32s_rv32im pSrcA pSrcB M N OC strideA strideB strideC pDstC w
      else
        plp_mat_mult_cmplx_stride_i32s_xpulpv2 pSrcA pSrcB M N OC strideA strideB strideC pDstC w)"

section \<open>16-bit complex dot product (plp\_cmplx\_dot\_prod\_i16\_xpulpv2)\<close>

text \<open>
  \<^verbatim>\<open>v2s\<close> is a vector of two \<^verbatim>\<open>int16_t\<close>; element 0 is the one at the lower address.
  \<^verbatim>\<open>__builtin_shuffle(a, b, mask)\<close> is the compiler's two-operand shuffle: element \<open>k\<close>
  of the result is element \<open>mask[k]\<close> of the concatenation of \<open>a\<close> and \<open>b\<close>.
\<close>

type_synonym v2s = "i16 \<times> i16"

definition v2s_elem :: "v2s \<Rightarrow> v2s \<Rightarrow> nat \<Rightarrow> i16" where
  "v2s_elem a b k =
     (if k mod 4 = 0 then fst a else if k mod 4 = 1 then snd a
      else if k mod 4 = 2 then fst b else snd b)"

definition builtin_shuffle :: "v2s \<Rightarrow> v2s \<Rightarrow> nat \<times> nat \<Rightarrow> v2s" where
  "builtin_shuffle a b sel = (v2s_elem a b (fst sel), v2s_elem a b (snd sel))"

text \<open>
  Modelled from the spec: \<^verbatim>\<open>__DOTP2\<close> and \<^verbatim>\<open>__SUMDOTP2\<close> are macros of \<^verbatim>\<open>plp_math.h\<close>,
  which is missing from the sources. The spec only names the dot product among the
  elementwise kernels, with an accumulator wider than the 16-bit inputs; what the two
  macros compute is taken from the comments the kernel puts before their uses
  (\<^verbatim>\<open>real_sum += -bf[0]*dh[0] - bf[1]*dh[1] + ae[0]*cg[0] + ae[1]*cg[1]\<close>): the signed
  16-bit elements are multiplied pairwise and summed in 32 bits, \<^verbatim>\<open>__SUMDOTP2\<close> adding
  the accumulator.
\<close>

definition DOTP2 :: "v2s \<Rightarrow> v2s \<Rightarrow> i32" where
  "DOTP2 x y = scast (fst x) * scast (fst y) + scast (snd x) * scast (snd y)"

definition SUMDOTP2 :: "v2s \<Rightarrow> v2s \<Rightarrow> i32 \<Rightarrow> i32" where
  "SUMDOTP2 x y acc = acc + scast (fst x) * scast (fst y) + scast (snd x) * scast (snd y)"

text \<open>
  The input vectors are read-only and indexed with \<^verbatim>\<open>uint32_t\<close> expressions, so each is a
  function from the index to the element. The main loop handles two complex samples per
  round (a \<^verbatim>\<open>v2s\<close> load at \<^verbatim>\<open>&p[k]\<close> reads \<^verbatim>\<open>p[k]\<close> and \<^verbatim>\<open>p[k+1]\<close>) and returns the counter with
  the sums, as the clean-up step reads it.
\<close>

function dot_prod_loop ::
  "(u32 \<Rightarrow> i16) \<Rightarrow> (u32 \<Rightarrow> i16) \<Rightarrow> u32 \<Rightarrow> u32 \<Rightarrow> i32 \<times> i32 \<Rightarrow> u32 \<times> i32 \<times> i32" where
  "dot_prod_loop pSrcA pSrcB loopEnd i (real_sum, imag_sum) =
     (if i < loopEnd then
        let ab = (pSrcA (4 * i), pSrcA (4 * i + 1));
            ef = (pSrcA (4 * i + 2), pSrcA (4 * i + 3));
            cd = (pSrcB (4 * i), pSrcB (4 * i + 1));
            gh = (pSrcB (4 * i + 2), pSrcB (4 * i + 3));
            bf = builtin_shuffle ab ef (1, 3);
            dh = builtin_shuffle cd gh (1, 3);
            ae = builtin_shuffle ab ef (0, 2);
            cg = builtin_shuffle cd gh (0, 2);
            real_sum1 = SUMDOTP2 ae cg real_sum;
            real_sum2 = real_sum1 - DOTP2 bf dh;
            dc = builtin_shuffle cd cd (1, 0);
            hg = builtin_shuffle gh gh (1, 0);
            imag_sum1 = SUMDOTP2 ab dc imag_sum;
            imag_sum2 = SUMDOTP2 ef hg imag_sum1
        in dot_prod_loop pSrcA pSrcB loopEnd (i + 1) (real_sum2, imag_sum2)
      else (i, real_sum, imag_sum))"
  by pat_completeness auto
termination
  by (relation "measure (\<lambda>(pSrcA, pSrcB, loopEnd, i, acc). unat loopEnd - unat i)")
     (auto simp: unat_less_Suc word_less_nat_alt)

declare dot_prod_loop.simps [simp del]

text \<open>
  The results leave through \<^verbatim>\<open>int16_t\<close> pointers: the assignment narrows the 32-bit sums
  to their low 16 bits. The model returns the pair \<open>(*realResult, *imagResult)\<close>.
\<close>

definition plp_cmplx_dot_prod_i16_xpulpv2 ::
  "(u32 \<Rightarrow> i16) \<Rightarrow> (u32 \<Rightarrow> i16) \<Rightarrow> u32 \<Rightarrow> i16 \<times> i16" where
  "plp_cmplx_dot_prod_i16_xpulpv2 pSrcA pSrcB numSamples =
     (let loopEnd = numSamples div 2;
          (i, real_sum, imag_sum) = dot_prod_loop pSrcA pSrcB loopEnd 0 (0, 0);
          (real_sum', imag_sum') =
            (if numSamples AND 1 \<noteq> 0 then
               let r_a1 = (scast (pSrcA (4 * i)) :: i32);
                   i_a1 = (scast (pSrcA (4 * i + 1)) :: i32);
                   r_b1 = (scast (pSrcB (4 * i)) :: i32);
                   i_b1 = (scast (pSrcB (4 * i + 1)) :: i32)
               in (real_sum + (r_a1 * r_b1 - i_a1 * i_b1),
                   imag_sum + (r_a1 * i_b1 + i_a1 * r_b1))
             else (real_sum, imag_sum))
      in (ucast real_sum', ucast imag_sum'))"

section \<open>Reference definitions\<close>

text \<open>
  The rows \<open>m, m + p, m + 2p, ...\<close> below \<open>M\<close>, over the natural numbers: what the
  loop header \<^verbatim>\<open>for (row = worker_id; row < M; row += nPE)\<close> enumerates when nothing wraps.
\<close>

function stride_from :: "nat \<Rightarrow> nat \<Rightarrow> nat \<Rightarrow> nat list" where
  "stride_from m M p = (if m < M \<and> 0 < p then m # stride_from (m + p) M p else [])"
  by pat_completeness auto
termination
  by (relation "measure (\<lambda>(m, M, p). M - m)") auto

declare stride_from.simps [simp del]

text \<open>The set of rows a worker is assigned (empty if its loop does not return).\<close>

definition worker_row_set :: "u32 \<Rightarrow> u32 \<Rightarrow> u32 \<Rightarrow> u32 set" where
  "worker_row_set core_id M nPE =
     (case worker_rows core_id M nPE of None \<Rightarrow> {} | Some rs \<Rightarrow> set rs)"

text \<open>A job with an empty worker pool, and a store to run it on.\<close>

definition job_zero_nPE :: plp_mat_scale_stride_instance_f32 where
  "job_zero_nPE =
     \<lparr>a_pSrc = 0, a_M = 1, a_N = 1, a_strideSrc = 1, a_strideDst = 1,
      a_scaleFactor = f32_of_int 2, a_nPE = 0, a_pDst = 1\<rparr>"

text \<open>
  The stride-addressing helper: the scalar at \<open>(row, col)\<close> of a view with base \<open>p\<close>
  lies at \<open>p[row * stride + col]\<close>, the index computed in \<^verbatim>\<open>uint32_t\<close>.
\<close>

definition elem_addr :: "nat \<Rightarrow> u32 \<Rightarrow> u32 \<Rightarrow> u32 \<Rightarrow> nat" where
  "elem_addr p stride row col = p + unat (row * stride + col)"

text \<open>The destination locations of row \<open>m\<close> of the scale kernel.\<close>

definition row_dst :: "nat \<Rightarrow> u32 \<Rightarrow> u32 \<Rightarrow> u32 \<Rightarrow> nat set" where
  "row_dst pDst strideDst N m = {elem_addr pDst strideDst m n | n. n < N}"

text \<open>
  No location the kernel reads through \<^verbatim>\<open>pSrc\<close> is one it writes through \<^verbatim>\<open>pDst\<close> (both
  pointers are declared \<^verbatim>\<open>__restrict__\<close>).
\<close>

definition src_dst_disjoint :: "nat \<Rightarrow> u32 \<Rightarrow> nat \<Rightarrow> u32 \<Rightarrow> u32 \<Rightarrow> u32 \<Rightarrow> bool" where
  "src_dst_disjoint pSrc strideSrc pDst strideDst M N =
     (\<forall>m m' n n'. m < M \<longrightarrow> m' < M \<longrightarrow> n < N \<longrightarrow> n' < N \<longrightarrow>
        elem_addr pSrc strideSrc m n \<noteq> elem_addr pDst strideDst m' n')"

text \<open>
  The parallel kernel is called once per worker; \<open>run_workers\<close> runs the calls of the
  workers \<open>ids\<close> one after the other on the shared store, in the order of the list.
\<close>

fun run_workers :: "plp_mat_scale_stride_instance_f32 \<Rightarrow> u32 list \<Rightarrow> mem \<Rightarrow> mem option" where
  "run_workers a [] s = Some s"
| "run_workers a (core_id # ids) s =
     (case plp_mat_scale_stride_f32p_xpulpv2 core_id a s of
        None \<Rightarrow> None
      | Some s' \<Rightarrow> run_workers a ids s')"

text \<open>The rows of worker \<open>core_id\<close> as 32-bit row numbers.\<close>

definition rows_of :: "u32 \<Rightarrow> u32 \<Rightarrow> u32 \<Rightarrow> u32 list" where
  "rows_of core_id M nPE = map of_nat (stride_from (unat core_id) (unat M) (unat nPE))"

text \<open>A 3 by 2 job for two workers, source rows 2 apart, destination rows 3 apart.\<close>

definition job_3x2 :: plp_mat_scale_stride_instance_f32 where
  "job_3x2 =
     \<lparr>a_pSrc = 0, a_M = 3, a_N = 2, a_strideSrc = 2, a_strideDst = 3,
      a_scaleFactor = f32_of_int 2, a_nPE = 2, a_pDst = 6\<rparr>"

text \<open>A store for the 3 by 2 job: the source at 0 to 5, other values from 6 on.\<close>

definition mem_3x2 :: mem where
  "mem_3x2 =
     mem_of_list (map f32_of_int [1, 2, 3, 4, 5, 6, 7, 8, 9, 10, 11, 12, 13, 14, 15])"

text \<open>
  Complex matrices interleave real and imaginary parts: the scalar \<open>j\<close> (0 real, 1
  imaginary) of the element at \<open>(row, col)\<close> lies at \<open>p[(row * stride + col) * 2 + j]\<close>.
\<close>

definition cmplx_addr :: "nat \<Rightarrow> u32 \<Rightarrow> u32 \<Rightarrow> u32 \<Rightarrow> u32 \<Rightarrow> nat" where
  "cmplx_addr p stride row col j = p + unat ((row * stride + col) * 2 + j)"

text \<open>
  The locations of the destination view, and the locations the kernel reads in the two
  source views.
\<close>

definition dst_addrs :: "nat \<Rightarrow> u32 \<Rightarrow> u32 \<Rightarrow> u32 \<Rightarrow> nat set" where
  "dst_addrs pDstC strideC M OC =
     {cmplx_addr pDstC strideC m oc j | m oc j. m < M \<and> oc < OC \<and> j < 2}"

definition src_addrs :: "nat \<Rightarrow> nat \<Rightarrow> u32 \<Rightarrow> u32 \<Rightarrow> u32 \<Rightarrow> u32 \<Rightarrow> u32 \<Rightarrow> nat set" where
  "src_addrs pSrcA pSrcB strideA strideB M N OC =
     {cmplx_addr pSrcA strideA m n j | m n j. m < M \<and> n < N \<and> j < 2} \<union>
     {cmplx_addr pSrcB strideB n oc j | n oc j. n < N \<and> oc < OC \<and> j < 2}"

text \<open>
  The reference product: one complex multiply-accumulate step for the index \<open>n\<close>, as
  \<^verbatim>\<open>sum_re += a_re*b_re - a_im*b_im; sum_im += a_re*b_im + a_im*b_re\<close>, folded over
  \<open>n = 0, ..., N - 1\<close> in this order from \<open>(0, 0)\<close>.
\<close>

definition cmplx_mac ::
  "mem \<Rightarrow> nat \<Rightarrow> nat \<Rightarrow> u32 \<Rightarrow> u32 \<Rightarrow> u32 \<Rightarrow> u32 \<Rightarrow> nat \<Rightarrow> f32 \<times> f32 \<Rightarrow> f32 \<times> f32" where
  "cmplx_mac s pSrcA pSrcB strideA strideB m oc n acc =
     (let a_re = s (cmplx_addr pSrcA strideA m (of_nat n) 0);
          a_im = s (cmplx_addr pSrcA strideA m (of_nat n) 1);
          b_re = s (cmplx_addr pSrcB strideB (of_nat n) oc 0);
          b_im = s (cmplx_addr pSrcB strideB (of_nat n) oc 1)
      in (f32_add (fst acc) (f32_sub (f32_mul a_re b_re) (f32_mul a_im b_im)),
          f32_add (snd acc) (f32_add (f32_mul a_re b_im) (f32_mul a_im b_re))))"

definition ref_product ::
  "mem \<Rightarrow> nat \<Rightarrow> nat \<Rightarrow> u32 \<Rightarrow> u32 \<Rightarrow> u32 \<Rightarrow> u32 \<Rightarrow> u32 \<Rightarrow> f32 \<times> f32" where
  "ref_product s pSrcA pSrcB N strideA strideB m oc =
     fold (cmplx_mac s pSrcA pSrcB strideA strideB m oc) [0..<unat N] (f32_zero, f32_zero)"

text \<open>
  Stores for the examples. \<open>mem_1x1\<close> holds \<open>A = [[1+2i]]\<close> at 0, \<open>B = [[3+4i]]\<close>
  at 2 and room for \<open>C\<close> at 4; \<open>mem_2x2\<close> holds two 2 by 2 complex matrices at 0 and 8,
  followed by 12 further scalars.
\<close>

definition mem_1x1 :: mem where
  "mem_1x1 = mem_of_list (map f32_of_int [1, 2, 3, 4, 0, 0])"

definition mem_2x2 :: mem where
  "mem_2x2 =
     mem_of_list (map f32_of_int
       [1, 2, 3, 4, 5, 6, 7, 8, 9, 10, 11, 12, 13, 14, 15, 16,
        17, 18, 19, 20, 21, 22, 23, 24, 25, 26, 27, 28])"

text \<open>
  The exact integer contributions of sample \<open>k\<close> to the real and to the imaginary part of
  the dot product; sample \<open>k\<close> occupies the \<^verbatim>\<open>uint32_t\<close> indices \<open>2k\<close> (real) and
  \<open>2k + 1\<close> (imaginary), and \<open>sint\<close> reads an element as a signed 16-bit integer.
\<close>

definition re_term :: "(u32 \<Rightarrow> i16) \<Rightarrow> (u32 \<Rightarrow> i16) \<Rightarrow> nat \<Rightarrow> int" where
  "re_term pSrcA pSrcB k =
     sint (pSrcA (of_nat (2 * k))) * sint (pSrcB (of_nat (2 * k)))
     - sint (pSrcA (of_nat (2 * k + 1))) * sint (pSrcB (of_nat (2 * k + 1)))"

definition im_term :: "(u32 \<Rightarrow> i16) \<Rightarrow> (u32 \<Rightarrow> i16) \<Rightarrow> nat \<Rightarrow> int" where
  "im_term pSrcA pSrcB k =
     sint (pSrcA (of_nat (2 * k))) * sint (pSrcB (of_nat (2 * k + 1)))
     + sint (pSrcA (of_nat (2 * k + 1))) * sint (pSrcB (of_nat (2 * k)))"

text \<open>
  A one-sample vector, \<open>300 + 0i\<close>: its product with itself, 90000, does not fit in 16
  bits.
\<close>

definition vec_300 :: "u32 \<Rightarrow> i16" where
  "vec_300 k = (if k = 0 then 300 else 0)"

section \<open>Evaluating binary32 arithmetic on numerals\<close>

lemma bitlen_0: "bitlen 0 = 0"
  by (subst bitlen.simps) simp

lemma bitlen_numeral: "bitlen (numeral k) = Suc (bitlen (numeral k div 2))"
  by (subst bitlen.simps) simp

lemma bitlen_1: "bitlen (Suc 0) = Suc 0"
  by (subst bitlen.simps) (simp add: bitlen_0)

lemmas f32_eval = f32_of_int_def round_f32_def bitlen_0 bitlen_1 bitlen_numeral f32_sub_def
  f32_zero_def Let_def

section \<open>The row loop of the parallel kernel\<close>

lemma set_stride_from:
  "0 < p \<Longrightarrow> set (stride_from c M p) = {r. c \<le> r \<and> r < M \<and> r mod p = c mod p}"
proof (induction c M p rule: stride_from.induct)
  case (1 m M p)
  show ?case
  proof (cases "m < M")
    case True
    have IH: "set (stride_from (m + p) M p) = {r. m + p \<le> r \<and> r < M \<and> r mod p = (m + p) mod p}"
      using 1 True by simp
    have "\<And>r. m \<le> r \<Longrightarrow> r mod p = m mod p \<Longrightarrow> r \<noteq> m \<Longrightarrow> m + p \<le> r"
    proof -
      fix r assume a: "m \<le> r" "r mod p = m mod p" "r \<noteq> m"
      then have "p dvd (r - m)" by (metis mod_eq_dvd_iff_nat)
      moreover have "0 < r - m" using a by simp
      ultimately have "p \<le> r - m" by (simp add: dvd_imp_le)
      then show "m + p \<le> r" using a by simp
    qed
    then show ?thesis
      using True 1(2) by (subst stride_from.simps) (auto simp: IH)
  next
    case False
    then show ?thesis by (subst stride_from.simps) auto
  qed
qed

lemma distinct_stride_from: "distinct (stride_from c M p)"
proof (induction c M p rule: stride_from.induct)
  case (1 m M p)
  show ?case
  proof (cases "m < M \<and> 0 < p")
    case True
    then have "distinct (stride_from (m + p) M p)" using 1 by simp
    moreover have "m \<notin> set (stride_from (m + p) M p)"
      using True by (simp add: set_stride_from)
    ultimately show ?thesis using True by (subst stride_from.simps) simp
  next
    case False
    then have "stride_from m M p = []" by (subst stride_from.simps) (simp only: if_False)
    then show ?thesis by simp
  qed
qed

lemma row_loop_stride_from:
  "0 < p \<Longrightarrow> M' + p \<le> 2 ^ 32 \<Longrightarrow> unat M = M' \<Longrightarrow> unat nPE = p \<Longrightarrow> unat m = k \<Longrightarrow>
   row_loop M nPE body m st = Some (fold body (map of_nat (stride_from k M' p)) st)"
proof (induction k M' p arbitrary: m st rule: stride_from.induct)
  case (1 k M' p)
  show ?case
  proof (cases "m < M")
    case True
    then have kM: "k < M'" using 1 by (simp add: word_less_nat_alt)
    then have "unat m + unat nPE < 2 ^ LENGTH(32)" using 1 by simp
    then have "unat (m + nPE) = unat m + unat nPE" by (simp only: unat_add_lem)
    then have "unat (m + nPE) = k + p" using 1 by simp
    then have "row_loop M nPE body (m + nPE) (body m st)
        = Some (fold body (map of_nat (stride_from (k + p) M' p)) (body m st))"
      using 1 kM by simp
    moreover have "(of_nat k :: u32) = m" using 1 by auto
    ultimately show ?thesis
      using True kM 1(2)
      by (subst row_loop.simps, subst stride_from.simps) simp
  next
    case False
    then have "\<not> k < M'" using 1 by (simp add: word_less_nat_alt)
    then show ?thesis using False
      by (subst row_loop.simps, subst stride_from.simps) simp
  qed
qed

lemma row_loop_zero_nPE_aux:
  "row_loop M nPE body m st = Some y \<Longrightarrow> nPE = 0 \<longrightarrow> \<not> m < M"
  by (rule row_loop.raw_induct [where P = "\<lambda>M nPE body m st y. nPE = 0 \<longrightarrow> \<not> m < M"])
    (auto split: if_splits)

lemma row_loop_zero_nPE: "m < M \<Longrightarrow> row_loop M 0 body m st = None"
  using row_loop_zero_nPE_aux [of M 0 body m st] by (cases "row_loop M 0 body m st") auto


lemma fold_snoc_trace: "fold (\<lambda>m rs. rs @ [m]) xs acc = acc @ xs"
  by (induction xs arbitrary: acc) auto

lemma worker_rows_stride_from:
  "0 < nPE \<Longrightarrow> unat M + unat nPE \<le> 2 ^ 32 \<Longrightarrow>
   worker_rows core_id M nPE
     = Some (map of_nat (stride_from (unat core_id) (unat M) (unat nPE)))"
  unfolding worker_rows_def
  by (subst row_loop_stride_from [where M' = "unat M" and p = "unat nPE" and k = "unat core_id"])
     (simp_all add: fold_snoc_trace word_less_nat_alt)

lemma set_map_stride_from:
  "core_id < nPE \<Longrightarrow>
   set (map of_nat (stride_from (unat core_id) (unat M) (unat nPE)))
     = {r :: u32. r < M \<and> r mod nPE = core_id}"
proof -
  assume c: "core_id < nPE"
  then have p: "0 < unat nPE" and cp: "unat core_id < unat nPE"
    by (auto simp: word_less_nat_alt)
  have M32: "unat M < 2 ^ 32" using unsigned_less [of M, where ?'a = nat] by simp
  show ?thesis
  proof (rule set_eqI, rule iffI)
    fix r :: u32
    assume "r \<in> set (map of_nat (stride_from (unat core_id) (unat M) (unat nPE)))"
    then obtain k where k: "r = of_nat k" "unat core_id \<le> k" "k < unat M"
        "k mod unat nPE = unat core_id mod unat nPE"
      using p by (auto simp: set_stride_from)
    then have ur: "unat r = k" using M32 by (simp add: unat_of_nat)
    have "unat (r mod nPE) = unat core_id" using k cp ur by (simp add: unat_mod)
    then have "r mod nPE = core_id" by (simp add: word_unat_eq_iff)
    moreover have "r < M" using k ur by (simp add: word_less_nat_alt)
    ultimately show "r \<in> {r. r < M \<and> r mod nPE = core_id}" by simp
  next
    fix r :: u32
    assume "r \<in> {r. r < M \<and> r mod nPE = core_id}"
    then have rM: "unat r < unat M" and rm: "unat r mod unat nPE = unat core_id"
      by (auto simp: word_less_nat_alt unat_mod)
    have "unat core_id \<le> unat r" using rm mod_less_eq_dividend [of "unat r" "unat nPE"] by simp
    then have "unat r \<in> set (stride_from (unat core_id) (unat M) (unat nPE))"
      using p rM rm cp by (simp add: set_stride_from)
    then have "of_nat (unat r) \<in> (of_nat ` set (stride_from (unat core_id) (unat M) (unat nPE)) :: u32 set)"
      by (rule imageI)
    then show "r \<in> set (map of_nat (stride_from (unat core_id) (unat M) (unat nPE)))"
      by simp
  qed
qed

lemma distinct_map_stride_from:
  "distinct (map (of_nat :: nat \<Rightarrow> u32) (stride_from c (unat (M :: u32)) p))"
proof -
  have M32: "unat M < 2 ^ 32" using unsigned_less [of M, where ?'a = nat] by simp
  have "inj_on (of_nat :: nat \<Rightarrow> u32) {r. r < unat M}"
  proof (rule inj_onI)
    fix x y assume a: "x \<in> {r. r < unat M}" "y \<in> {r. r < unat M}" "(of_nat x :: u32) = of_nat y"
    have "unat (of_nat x :: u32) = unat (of_nat y :: u32)" using a(3) by simp
    then have "x mod 2 ^ 32 = y mod 2 ^ 32" by (simp add: unat_of_nat)
    moreover have "x < 2 ^ 32" "y < 2 ^ 32" using a(1,2) M32 by simp_all
    ultimately show "x = y" by simp
  qed
  moreover have "set (stride_from c (unat M) p) \<subseteq> {r. r < unat M}"
  proof (cases "0 < p")
    case True then show ?thesis by (auto simp: set_stride_from)
  next
    case False
    then have "stride_from c (unat M) p = []" by (subst stride_from.simps) simp
    then show ?thesis by simp
  qed
  ultimately have "inj_on (of_nat :: nat \<Rightarrow> u32) (set (stride_from c (unat M) p))"
    by (rule inj_on_subset)
  then show ?thesis by (simp add: distinct_map distinct_stride_from)
qed

text \<open>
  C6 as stated fails: the kernel has no guard against an empty worker pool. With
  \<open>nPE = 0\<close> the step \<^verbatim>\<open>m += nPE\<close> leaves the counter where it is, and worker 0 never
  leaves the row loop of a one-row job.
\<close>

theorem zero_nPE_never_returns:
  "plp_mat_scale_stride_f32p_xpulpv2 0 job_zero_nPE (mem_of_list []) = None"
  unfolding plp_mat_scale_stride_f32p_xpulpv2_def Let_def
  by (simp add: job_zero_nPE_def row_loop_zero_nPE)

text \<open>
  C6, amended: a call with \<open>nPE \<ge> 1\<close> (and \<open>M + nPE \<le> 2^32\<close>, so that the 32-bit
  row counter does not wrap) returns; a call with \<open>nPE = 0\<close> whose worker id is below
  \<open>M\<close> never returns, as nothing guards against it.
\<close>

theorem parallel_kernel_termination:
  "(0 < a_nPE a \<and> unat (a_M a) + unat (a_nPE a) \<le> 2 ^ 32 \<longrightarrow>
      (\<exists>s'. plp_mat_scale_stride_f32p_xpulpv2 core_id a s = Some s')) \<and>
   (a_nPE a = 0 \<and> core_id < a_M a \<longrightarrow>
      plp_mat_scale_stride_f32p_xpulpv2 core_id a s = None)"
  unfolding plp_mat_scale_stride_f32p_xpulpv2_def Let_def
  by (auto simp: row_loop_zero_nPE
      row_loop_stride_from [where M' = "unat (a_M a)" and p = "unat (a_nPE a)" and k = "unat core_id"]
      word_less_nat_alt)

theorem parallel_kernel_termination_witness:
  "(\<exists>s'. plp_mat_scale_stride_f32p_xpulpv2 0 (job_zero_nPE\<lparr>a_nPE := 8\<rparr>) (mem_of_list [])
      = Some s') \<and>
   plp_mat_scale_stride_f32p_xpulpv2 0 job_zero_nPE (mem_of_list []) = None"
  using parallel_kernel_termination [of "job_zero_nPE\<lparr>a_nPE := 8\<rparr>" 0 "mem_of_list []"]
    parallel_kernel_termination [of job_zero_nPE 0 "mem_of_list []"]
  by (simp add: job_zero_nPE_def)

section \<open>The parallel scale kernel\<close>

lemma elem_addr_col_inj: "elem_addr p st m n = elem_addr p st m n' \<longleftrightarrow> n = n'"
proof
  assume "elem_addr p st m n = elem_addr p st m n'"
  then have "unat (m * st + n) = unat (m * st + n')" by (simp add: elem_addr_def)
  then have "m * st + n = m * st + n'" by (simp only: word_unat_eq_iff)
  then show "n = n'" by simp
qed simp

lemma word_less_Suc: "(n :: u32) < b \<Longrightarrow> n < n + 1"
  by (simp add: word_less_nat_alt unat_less_Suc)

lemma word_Suc_le: "(n :: u32) < b \<Longrightarrow> n + 1 \<le> b"
  by (simp add: word_less_nat_alt word_le_nat_alt unat_less_Suc)

lemma scale_cols_frame:
  "(\<And>n'. n \<le> n' \<Longrightarrow> n' < N \<Longrightarrow> x \<noteq> elem_addr pDst strideDst m n') \<Longrightarrow>
   scale_cols pSrc N strideSrc strideDst scaleFactor pDst m n s x = s x"
proof (induction pSrc N strideSrc strideDst scaleFactor pDst m n s rule: scale_cols.induct)
  case (1 pSrc N strideSrc strideDst scaleFactor pDst m n s)
  show ?case
  proof (cases "n < N")
    case True
    let ?s1 = "s(pDst + unat (m * strideDst + n) :=
                  f32_mul (s (pSrc + unat (m * strideSrc + n))) scaleFactor)"
    have "scale_cols pSrc N strideSrc strideDst scaleFactor pDst m (n + 1) ?s1 x = ?s1 x"
    proof (rule "1.IH" [OF True refl])
      fix n' assume "n + 1 \<le> n'" "n' < N"
      moreover have "n \<le> n + 1" using word_less_Suc [OF True] by simp
      ultimately show "x \<noteq> elem_addr pDst strideDst m n'" using "1.prems" by auto
    qed
    moreover have "x \<noteq> elem_addr pDst strideDst m n" using "1.prems" True by simp
    ultimately show ?thesis
      using True by (subst scale_cols.simps) (simp add: elem_addr_def Let_def)
  next
    case False
    then show ?thesis by (subst scale_cols.simps) simp
  qed
qed

lemma scale_cols_value:
  "(\<And>n1 n2. n1 < N \<Longrightarrow> n2 < N \<Longrightarrow> elem_addr pSrc strideSrc m n1 \<noteq> elem_addr pDst strideDst m n2) \<Longrightarrow>
   n \<le> n' \<Longrightarrow> n' < N \<Longrightarrow>
   scale_cols pSrc N strideSrc strideDst scaleFactor pDst m n s (elem_addr pDst strideDst m n')
     = f32_mul (s (elem_addr pSrc strideSrc m n')) scaleFactor"
proof (induction pSrc N strideSrc strideDst scaleFactor pDst m n s rule: scale_cols.induct)
  case (1 pSrc N strideSrc strideDst scaleFactor pDst m n s)
  have nN: "n < N" using "1.prems"(2,3) by simp
  let ?s1 = "s(pDst + unat (m * strideDst + n) :=
                f32_mul (s (pSrc + unat (m * strideSrc + n))) scaleFactor)"
  have step: "scale_cols pSrc N strideSrc strideDst scaleFactor pDst m n s
      = scale_cols pSrc N strideSrc strideDst scaleFactor pDst m (n + 1) ?s1"
    using nN by (subst scale_cols.simps) (simp add: Let_def)
  show ?case
  proof (cases "n' = n")
    case True
    have "scale_cols pSrc N strideSrc strideDst scaleFactor pDst m (n + 1) ?s1
            (elem_addr pDst strideDst m n) = ?s1 (elem_addr pDst strideDst m n)"
    proof (rule scale_cols_frame)
      fix n'' assume "n + 1 \<le> n''"
      then have "n \<noteq> n''" using word_less_Suc [OF nN] by auto
      then show "elem_addr pDst strideDst m n \<noteq> elem_addr pDst strideDst m n''"
        by (simp add: elem_addr_col_inj)
    qed
    then show ?thesis using True step by (simp add: elem_addr_def)
  next
    case False
    then have "n < n'" using "1.prems"(2) by simp
    then have le: "n + 1 \<le> n'" by (rule word_Suc_le)
    have "scale_cols pSrc N strideSrc strideDst scaleFactor pDst m (n + 1) ?s1
            (elem_addr pDst strideDst m n') = f32_mul (?s1 (elem_addr pSrc strideSrc m n')) scaleFactor"
      by (rule "1.IH" [OF nN refl "1.prems"(1) le "1.prems"(3)])
    moreover have "elem_addr pSrc strideSrc m n' \<noteq> elem_addr pDst strideDst m n"
      using "1.prems"(1) [OF "1.prems"(3) nN] .
    ultimately show ?thesis using step by (simp add: elem_addr_def)
  qed
qed

lemma unat_elem_index:
  "unat n < unat sd \<Longrightarrow> unat m < unat M \<Longrightarrow> unat M * unat sd \<le> 2 ^ 32 \<Longrightarrow>
   unat ((m :: u32) * sd + n) = unat m * unat sd + unat n"
proof -
  assume a: "unat n < unat sd" "unat m < unat M" "unat M * unat sd \<le> 2 ^ 32"
  have "unat m * unat sd + unat n < Suc (unat m) * unat sd" using a(1) by simp
  also have "\<dots> \<le> unat M * unat sd" using a(2) by (intro mult_le_mono1) simp
  finally have b: "unat m * unat sd + unat n < 2 ^ 32" using a(3) by simp
  then have "unat m * unat sd < 2 ^ LENGTH(32)" by simp
  then have m: "unat (m * sd) = unat m * unat sd" by (simp only: unat_mult_lem)
  then have "unat (m * sd) + unat n < 2 ^ LENGTH(32)" using b by simp
  then have "unat (m * sd + n) = unat (m * sd) + unat n" by (simp only: unat_add_lem)
  then show ?thesis using m by simp
qed

lemma elem_addr_inj:
  assumes "unat N \<le> unat sd" "unat M * unat sd \<le> 2 ^ 32"
    and "m < M" "m' < M" "n < N" "n' < N"
    and "elem_addr p sd m n = elem_addr p sd m' n'"
  shows "m = m' \<and> n = n'"
proof -
  have n: "unat n < unat sd" "unat n' < unat sd" and m: "unat m < unat M" "unat m' < unat M"
    using assms by (auto simp: word_less_nat_alt)
  have "unat m * unat sd + unat n = unat m' * unat sd + unat n'"
    using assms(7) unat_elem_index [OF n(1) m(1) assms(2)] unat_elem_index [OF n(2) m(2) assms(2)]
    by (simp add: elem_addr_def)
  then have "(unat n + unat m * unat sd) div unat sd = (unat n' + unat m' * unat sd) div unat sd"
    "(unat n + unat m * unat sd) mod unat sd = (unat n' + unat m' * unat sd) mod unat sd"
    by (simp_all add: add.commute)
  then have "unat m = unat m'" "unat n = unat n'" using n by simp_all
  then show ?thesis by (simp only: word_unat_eq_iff)
qed

lemma scale_row_frame:
  "x \<notin> row_dst pDst strideDst N m \<Longrightarrow>
   scale_cols pSrc N strideSrc strideDst scaleFactor pDst m 0 s x = s x"
  by (rule scale_cols_frame) (auto simp: row_dst_def)

lemma fold_rows_frame:
  "(\<And>m. m \<in> set rs \<Longrightarrow> x \<notin> row_dst pDst strideDst N m) \<Longrightarrow>
   fold (\<lambda>m. scale_cols pSrc N strideSrc strideDst scaleFactor pDst m 0) rs s x = s x"
  by (induction rs arbitrary: s) (simp_all add: scale_row_frame)

lemma fold_rows_value:
  assumes noalias: "src_dst_disjoint pSrc strideSrc pDst strideDst M N"
    and fit: "unat N \<le> unat strideDst" "unat M * unat strideDst \<le> 2 ^ 32"
  shows "distinct rs \<Longrightarrow> (\<And>r. r \<in> set rs \<Longrightarrow> r < M) \<Longrightarrow> m \<in> set rs \<Longrightarrow> n < N \<Longrightarrow>
     fold (\<lambda>m. scale_cols pSrc N strideSrc strideDst scaleFactor pDst m 0) rs s
       (elem_addr pDst strideDst m n)
     = f32_mul (s (elem_addr pSrc strideSrc m n)) scaleFactor"
proof (induction rs arbitrary: s)
  case Nil
  then show ?case by simp
next
  case (Cons r rs)
  let ?body = "\<lambda>m. scale_cols pSrc N strideSrc strideDst scaleFactor pDst m 0"
  have rM: "r < M" using Cons.prems(2) by simp
  have mM: "m < M" using Cons.prems(2,3) by auto
  show ?case
  proof (cases "m = r")
    case True
    have "fold ?body rs (?body r s) (elem_addr pDst strideDst m n)
        = ?body r s (elem_addr pDst strideDst m n)"
    proof (rule fold_rows_frame)
      fix m' assume m': "m' \<in> set rs"
      then have "m' \<noteq> m" "m' < M" using Cons.prems(1,2) True by auto
      then show "elem_addr pDst strideDst m n \<notin> row_dst pDst strideDst N m'"
        using elem_addr_inj [OF fit mM _ Cons.prems(4)] by (auto simp: row_dst_def)
    qed
    also have "\<dots> = f32_mul (s (elem_addr pSrc strideSrc m n)) scaleFactor"
      unfolding True
      using noalias rM Cons.prems(4)
      by (intro scale_cols_value) (auto simp: src_dst_disjoint_def)
    finally show ?thesis by simp
  next
    case False
    then have "m \<in> set rs" using Cons.prems(3) by simp
    then have "fold ?body rs (?body r s) (elem_addr pDst strideDst m n)
        = f32_mul (?body r s (elem_addr pSrc strideSrc m n)) scaleFactor"
      using Cons.prems by (intro Cons.IH) auto
    moreover have "?body r s (elem_addr pSrc strideSrc m n) = s (elem_addr pSrc strideSrc m n)"
      using noalias rM mM Cons.prems(4)
      by (intro scale_row_frame) (auto simp: row_dst_def src_dst_disjoint_def)
    ultimately show ?thesis by simp
  qed
qed

lemma fold_rows_cong:
  assumes noalias: "src_dst_disjoint pSrc strideSrc pDst strideDst M N"
    and fit: "unat N \<le> unat strideDst" "unat M * unat strideDst \<le> 2 ^ 32"
    and rs: "distinct rs1" "distinct rs2" "set rs1 = set rs2" "\<And>r. r \<in> set rs1 \<Longrightarrow> r < M"
  shows "fold (\<lambda>m. scale_cols pSrc N strideSrc strideDst scaleFactor pDst m 0) rs1 s
       = fold (\<lambda>m. scale_cols pSrc N strideSrc strideDst scaleFactor pDst m 0) rs2 s"
proof (rule ext)
  fix x
  let ?body = "\<lambda>m. scale_cols pSrc N strideSrc strideDst scaleFactor pDst m 0"
  show "fold ?body rs1 s x = fold ?body rs2 s x"
  proof (cases "\<exists>m \<in> set rs1. x \<in> row_dst pDst strideDst N m")
    case True
    then obtain m n where m: "m \<in> set rs1" "n < N" "x = elem_addr pDst strideDst m n"
      by (auto simp: row_dst_def)
    have "fold ?body rs1 s x = f32_mul (s (elem_addr pSrc strideSrc m n)) scaleFactor"
      unfolding m(3) using rs m by (intro fold_rows_value [OF noalias fit]) auto
    moreover have "fold ?body rs2 s x = f32_mul (s (elem_addr pSrc strideSrc m n)) scaleFactor"
      unfolding m(3) using rs m by (intro fold_rows_value [OF noalias fit]) auto
    ultimately show ?thesis by simp
  next
    case False
    then have "fold ?body rs1 s x = s x" "fold ?body rs2 s x = s x"
      using rs(3) by (auto intro!: fold_rows_frame)
    then show ?thesis by simp
  qed
qed

lemma kernel_fold:
  "0 < a_nPE a \<Longrightarrow> unat (a_M a) + unat (a_nPE a) \<le> 2 ^ 32 \<Longrightarrow>
   plp_mat_scale_stride_f32p_xpulpv2 core_id a s
     = Some (fold (\<lambda>m. scale_cols (a_pSrc a) (a_N a) (a_strideSrc a) (a_strideDst a)
                        (a_scaleFactor a) (a_pDst a) m 0)
               (rows_of core_id (a_M a) (a_nPE a)) s)"
  unfolding plp_mat_scale_stride_f32p_xpulpv2_def Let_def rows_of_def
  by (rule row_loop_stride_from) (simp_all add: word_less_nat_alt)

lemma run_workers_fold:
  "0 < a_nPE a \<Longrightarrow> unat (a_M a) + unat (a_nPE a) \<le> 2 ^ 32 \<Longrightarrow>
   run_workers a ids s
     = Some (fold (\<lambda>m. scale_cols (a_pSrc a) (a_N a) (a_strideSrc a) (a_strideDst a)
                        (a_scaleFactor a) (a_pDst a) m 0)
               (concat (map (\<lambda>c. rows_of c (a_M a) (a_nPE a)) ids)) s)"
  by (induction ids arbitrary: s) (simp_all add: kernel_fold)

lemma set_rows_of: "core_id < nPE \<Longrightarrow> set (rows_of core_id M nPE) = {r. r < M \<and> r mod nPE = core_id}"
  unfolding rows_of_def by (rule set_map_stride_from)

lemma distinct_rows_of: "distinct (rows_of core_id M nPE)"
  unfolding rows_of_def by (rule distinct_map_stride_from)

lemma rows_of_all_workers:
  "distinct ids \<Longrightarrow> (\<And>c. c \<in> set ids \<Longrightarrow> c < nPE) \<Longrightarrow>
   distinct (concat (map (\<lambda>c. rows_of c M nPE) ids)) \<and>
   set (concat (map (\<lambda>c. rows_of c M nPE) ids)) = {r. r < M \<and> r mod nPE \<in> set ids}"
proof (induction ids)
  case Nil
  then show ?case by simp
next
  case (Cons c ids)
  have c: "set (rows_of c M nPE) = {r. r < M \<and> r mod nPE = c}"
    using Cons.prems(2) by (simp add: set_rows_of)
  have IH: "distinct (concat (map (\<lambda>c. rows_of c M nPE) ids))"
    "set (concat (map (\<lambda>c. rows_of c M nPE) ids)) = {r. r < M \<and> r mod nPE \<in> set ids}"
    using Cons by simp_all
  have "set (rows_of c M nPE) \<inter> set (concat (map (\<lambda>c. rows_of c M nPE) ids)) = {}"
    unfolding c IH(2) using Cons.prems(1) by auto
  moreover have "set (concat (map (\<lambda>c. rows_of c M nPE) (c # ids)))
      = {r. r < M \<and> r mod nPE \<in> set (c # ids)}"
    using c IH(2) by auto
  ultimately show ?case using IH(1) distinct_rows_of [of c M nPE] by simp
qed

lemma word_mod_less: "0 < (n :: u32) \<Longrightarrow> r mod n < n"
  by (simp add: word_less_nat_alt unat_mod)

lemma worker_row_set_eq:
  "core_id < nPE \<Longrightarrow> unat M + unat nPE \<le> 2 ^ 32 \<Longrightarrow>
   worker_row_set core_id M nPE = {r. r < M \<and> r mod nPE = core_id}"
proof -
  assume c: "core_id < nPE" and w: "unat M + unat nPE \<le> 2 ^ 32"
  have "0 < nPE" using c by (auto simp: word_less_nat_alt)
  then show ?thesis
    using set_map_stride_from [OF c, of M] w
    by (simp add: worker_row_set_def worker_rows_stride_from)
qed

text \<open>
  C5: running the parallel kernel once for every worker id below \<open>nPE\<close>, in any order,
  leaves the store that the single-core execution (worker 0 of a pool of one) leaves.
  The hypotheses are those of a well-formed job: \<open>nPE \<ge> 1\<close>, a row counter that does not
  wrap, a destination view with \<open>strideDst \<ge> N\<close> whose indices fit in 32 bits, and a
  destination that does not overlap the source.
\<close>

theorem parallel_equals_single_core:
  assumes "0 < a_nPE a" and "unat (a_M a) + unat (a_nPE a) \<le> 2 ^ 32"
    and "unat (a_N a) \<le> unat (a_strideDst a)"
    and "unat (a_M a) * unat (a_strideDst a) \<le> 2 ^ 32"
    and "src_dst_disjoint (a_pSrc a) (a_strideSrc a) (a_pDst a) (a_strideDst a) (a_M a) (a_N a)"
    and "distinct ids" and "set ids = {c. c < a_nPE a}"
  shows "\<exists>s'. run_workers a ids s = Some s' \<and>
              plp_mat_scale_stride_f32p_xpulpv2 0 (a\<lparr>a_nPE := 1\<rparr>) s = Some s'"
proof -
  let ?body = "\<lambda>m. scale_cols (a_pSrc a) (a_N a) (a_strideSrc a) (a_strideDst a)
                   (a_scaleFactor a) (a_pDst a) m 0"
  let ?par = "concat (map (\<lambda>c. rows_of c (a_M a) (a_nPE a)) ids)"
  let ?seq = "rows_of 0 (a_M a) 1"
  have par: "run_workers a ids s = Some (fold ?body ?par s)"
    using assms(1,2) by (rule run_workers_fold)
  have "unat (a_M a) < 2 ^ 32" using unsigned_less [of "a_M a", where ?'a = nat] by simp
  then have seq: "plp_mat_scale_stride_f32p_xpulpv2 0 (a\<lparr>a_nPE := 1\<rparr>) s = Some (fold ?body ?seq s)"
    using kernel_fold [of "a\<lparr>a_nPE := 1\<rparr>" 0 s] by simp
  have dp: "distinct ?par" and sp: "set ?par = {r. r < a_M a \<and> r mod a_nPE a \<in> set ids}"
    using rows_of_all_workers [OF assms(6), of "a_nPE a" "a_M a"] assms(7) by simp_all
  have sp': "set ?par = {r. r < a_M a}"
    unfolding sp assms(7) using word_mod_less [OF assms(1)] by simp
  have ss: "set ?seq = {r. r < a_M a}" by (simp add: set_rows_of)
  have "fold ?body ?par s = fold ?body ?seq s"
    using dp distinct_rows_of [of 0 "a_M a" 1] sp' ss
    by (intro fold_rows_cong [OF assms(5) assms(3) assms(4)]) auto
  then show ?thesis using par seq by simp
qed

lemma word_less_2: "{c :: u32. c < 2} = {0, 1}"
proof -
  have "c < 2 \<longleftrightarrow> c = 0 \<or> c = 1" for c :: u32
  proof
    assume "c < 2"
    then have "unat c = 0 \<or> unat c = 1" by (auto simp: word_less_nat_alt)
    then show "c = 0 \<or> c = 1" by (auto simp: word_unat_eq_iff)
  qed auto
  then show ?thesis by auto
qed

theorem parallel_equals_single_core_witness:
  "\<exists>s'. run_workers job_3x2 [1, 0] (mem_of_list (map f32_of_int [1, 2, 3, 4, 5, 6])) = Some s' \<and>
        plp_mat_scale_stride_f32p_xpulpv2 0 (job_3x2\<lparr>a_nPE := 1\<rparr>)
          (mem_of_list (map f32_of_int [1, 2, 3, 4, 5, 6])) = Some s'"
proof -
  have "src_dst_disjoint 0 2 6 3 3 2"
    unfolding src_dst_disjoint_def elem_addr_def
  proof (intro allI impI)
    fix m m' n n' :: u32
    assume "m < 3" "n < 2"
    then have "unat (m * 2 + n) = unat m * unat (2 :: u32) + unat n"
      by (intro unat_elem_index [where M = "3 :: u32"]) (simp_all add: word_less_nat_alt)
    moreover have "unat m < 3" "unat n < 2" using \<open>m < 3\<close> \<open>n < 2\<close> by (simp_all add: word_less_nat_alt)
    ultimately show "0 + unat (m * 2 + n) \<noteq> 6 + unat (m' * 3 + n')" by simp
  qed
  then show ?thesis
    using parallel_equals_single_core [of job_3x2 "[1, 0]" "mem_of_list (map f32_of_int [1, 2, 3, 4, 5, 6])"]
      word_less_2
    by (simp add: job_3x2_def insert_commute)
qed

lemma kernel_effect:
  assumes c: "core_id < a_nPE a" and wrap: "unat (a_M a) + unat (a_nPE a) \<le> 2 ^ 32"
  shows "\<exists>s'. plp_mat_scale_stride_f32p_xpulpv2 core_id a s = Some s' \<and>
      s' = fold (\<lambda>m. scale_cols (a_pSrc a) (a_N a) (a_strideSrc a) (a_strideDst a)
                      (a_scaleFactor a) (a_pDst a) m 0) (rows_of core_id (a_M a) (a_nPE a)) s \<and>
      (\<forall>x. x \<notin> (\<Union>r \<in> {r. r < a_M a \<and> r mod a_nPE a = core_id}.
                    row_dst (a_pDst a) (a_strideDst a) (a_N a) r) \<longrightarrow> s' x = s x) \<and>
      (unat (a_N a) \<le> unat (a_strideDst a) \<and> unat (a_M a) * unat (a_strideDst a) \<le> 2 ^ 32 \<and>
       src_dst_disjoint (a_pSrc a) (a_strideSrc a) (a_pDst a) (a_strideDst a) (a_M a) (a_N a) \<longrightarrow>
         (\<forall>r n. r < a_M a \<longrightarrow> n < a_N a \<longrightarrow>
            s' (elem_addr (a_pDst a) (a_strideDst a) r n) =
              (if r mod a_nPE a = core_id
               then f32_mul (s (elem_addr (a_pSrc a) (a_strideSrc a) r n)) (a_scaleFactor a)
               else s (elem_addr (a_pDst a) (a_strideDst a) r n))))"
proof -
  let ?body = "\<lambda>m. scale_cols (a_pSrc a) (a_N a) (a_strideSrc a) (a_strideDst a)
                   (a_scaleFactor a) (a_pDst a) m 0"
  let ?rs = "rows_of core_id (a_M a) (a_nPE a)"
  let ?s' = "fold ?body ?rs s"
  have pos: "0 < a_nPE a" using c by (auto simp: word_less_nat_alt)
  have k: "plp_mat_scale_stride_f32p_xpulpv2 core_id a s = Some ?s'"
    using pos wrap by (rule kernel_fold)
  have set: "set ?rs = {r. r < a_M a \<and> r mod a_nPE a = core_id}"
    using c by (rule set_rows_of)
  have frame: "?s' x = s x"
    if "x \<notin> (\<Union>r \<in> {r. r < a_M a \<and> r mod a_nPE a = core_id}.
                 row_dst (a_pDst a) (a_strideDst a) (a_N a) r)" for x
    using that set by (intro fold_rows_frame) auto
  have val: "?s' (elem_addr (a_pDst a) (a_strideDst a) r n) =
        (if r mod a_nPE a = core_id
         then f32_mul (s (elem_addr (a_pSrc a) (a_strideSrc a) r n)) (a_scaleFactor a)
         else s (elem_addr (a_pDst a) (a_strideDst a) r n))"
    if fit: "unat (a_N a) \<le> unat (a_strideDst a)" "unat (a_M a) * unat (a_strideDst a) \<le> 2 ^ 32"
      and na: "src_dst_disjoint (a_pSrc a) (a_strideSrc a) (a_pDst a) (a_strideDst a) (a_M a) (a_N a)"
      and r: "r < a_M a" and n: "n < a_N a" for r n
  proof (cases "r mod a_nPE a = core_id")
    case True
    then have "r \<in> set ?rs" using r set by simp
    then have "?s' (elem_addr (a_pDst a) (a_strideDst a) r n)
        = f32_mul (s (elem_addr (a_pSrc a) (a_strideSrc a) r n)) (a_scaleFactor a)"
      using set n distinct_rows_of [of core_id "a_M a" "a_nPE a"]
      by (intro fold_rows_value [OF na fit]) auto
    then show ?thesis using True by simp
  next
    case False
    have "elem_addr (a_pDst a) (a_strideDst a) r n \<notin> row_dst (a_pDst a) (a_strideDst a) (a_N a) r'"
      if "r' \<in> set ?rs" for r'
    proof -
      have "r' < a_M a" "r' \<noteq> r" using that set False by auto
      then show ?thesis
        using elem_addr_inj [OF fit r _ n, of r' _ "a_pDst a"] by (auto simp: row_dst_def)
    qed
    then have "?s' (elem_addr (a_pDst a) (a_strideDst a) r n)
        = s (elem_addr (a_pDst a) (a_strideDst a) r n)"
      by (intro fold_rows_frame) auto
    then show ?thesis using False by simp
  qed
  show ?thesis using k frame val by blast
qed

lemma job_3x2_disjoint: "src_dst_disjoint 0 2 6 3 3 2"
  unfolding src_dst_disjoint_def elem_addr_def
proof (intro allI impI)
  fix m m' n n' :: u32
  assume "m < 3" "n < 2"
  then have "unat (m * 2 + n) = unat m * unat (2 :: u32) + unat n"
    by (intro unat_elem_index [where M = "3 :: u32"]) (simp_all add: word_less_nat_alt)
  moreover have "unat m < 3" "unat n < 2" using \<open>m < 3\<close> \<open>n < 2\<close> by (simp_all add: word_less_nat_alt)
  ultimately show "0 + unat (m * 2 + n) \<noteq> 6 + unat (m' * 3 + n')" by simp
qed

lemma job_3x2_fields:
  "a_pSrc job_3x2 = 0" "a_M job_3x2 = 3" "a_N job_3x2 = 2" "a_strideSrc job_3x2 = 2"
  "a_strideDst job_3x2 = 3" "a_scaleFactor job_3x2 = f32_of_int 2" "a_nPE job_3x2 = 2"
  "a_pDst job_3x2 = 6"
  by (simp_all add: job_3x2_def)

text \<open>
  C3: the call of the parallel kernel for the worker with 0-based id \<open>core_id\<close> (less than
  \<open>nPE\<close>) returns, and what it leaves is the loop body \<open>scale_cols\<close> run on exactly the
  rows \<open>r < M\<close> with \<open>r mod nPE = core_id\<close>, each once, in the order the loop header
  \<^verbatim>\<open>for (m = core_id; m < M; m += nPE)\<close> reaches them: the strided interleaving, not a
  contiguous block. On a well-formed job (\<open>strideDst \<ge> N\<close>, indices that fit in 32 bits,
  destination apart from the source) this shows in the store: a destination row \<open>r\<close> holds
  the scaled source row if \<open>r mod nPE = core_id\<close> and its prior contents otherwise. The
  row counter is a 32-bit integer; \<open>M + nPE \<le> 2^32\<close> says that stepping it from a row
  below \<open>M\<close> does not wrap.
\<close>

theorem kernel_rows_interleaved:
  assumes "core_id < a_nPE a" and "unat (a_M a) + unat (a_nPE a) \<le> 2 ^ 32"
  shows "\<exists>rs s'. worker_rows core_id (a_M a) (a_nPE a) = Some rs \<and> distinct rs \<and>
      set rs = {r. r < a_M a \<and> r mod a_nPE a = core_id} \<and>
      plp_mat_scale_stride_f32p_xpulpv2 core_id a s = Some s' \<and>
      s' = fold (\<lambda>m. scale_cols (a_pSrc a) (a_N a) (a_strideSrc a) (a_strideDst a)
                      (a_scaleFactor a) (a_pDst a) m 0) rs s \<and>
      (unat (a_N a) \<le> unat (a_strideDst a) \<and> unat (a_M a) * unat (a_strideDst a) \<le> 2 ^ 32 \<and>
       src_dst_disjoint (a_pSrc a) (a_strideSrc a) (a_pDst a) (a_strideDst a) (a_M a) (a_N a) \<longrightarrow>
         (\<forall>r n. r < a_M a \<longrightarrow> n < a_N a \<longrightarrow>
            s' (elem_addr (a_pDst a) (a_strideDst a) r n) =
              (if r mod a_nPE a = core_id
               then f32_mul (s (elem_addr (a_pSrc a) (a_strideSrc a) r n)) (a_scaleFactor a)
               else s (elem_addr (a_pDst a) (a_strideDst a) r n))))"
proof -
  have pos: "0 < a_nPE a" using assms(1) by (auto simp: word_less_nat_alt)
  have "worker_rows core_id (a_M a) (a_nPE a) = Some (rows_of core_id (a_M a) (a_nPE a))"
    unfolding rows_of_def using pos assms(2) by (rule worker_rows_stride_from)
  then show ?thesis
    using kernel_effect [OF assms, of s] set_rows_of [OF assms(1), of "a_M a"]
      distinct_rows_of [of core_id "a_M a" "a_nPE a"]
    by blast
qed

theorem kernel_rows_interleaved_witness:
  "\<exists>rs s'. worker_rows 1 3 2 = Some rs \<and> set rs = {r. r < 3 \<and> r mod 2 = 1} \<and>
      plp_mat_scale_stride_f32p_xpulpv2 1 job_3x2 mem_3x2 = Some s' \<and>
      s' (elem_addr 6 3 1 0) = f32_mul (mem_3x2 (elem_addr 0 2 1 0)) (f32_of_int 2) \<and>
      s' (elem_addr 6 3 0 0) = mem_3x2 (elem_addr 6 3 0 0) \<and>
      s' (elem_addr 6 3 2 1) = mem_3x2 (elem_addr 6 3 2 1)"
proof -
  have h: "(1 :: u32) < a_nPE job_3x2" "unat (a_M job_3x2) + unat (a_nPE job_3x2) \<le> 2 ^ 32"
    by (simp_all add: job_3x2_fields)
  obtain rs s' where rs: "worker_rows 1 3 2 = Some rs" "set rs = {r. r < 3 \<and> r mod 2 = 1}"
    and k: "plp_mat_scale_stride_f32p_xpulpv2 1 job_3x2 mem_3x2 = Some s'"
    and v: "unat (2 :: u32) \<le> unat (3 :: u32) \<and> unat (3 :: u32) * unat (3 :: u32) \<le> 2 ^ 32 \<and>
         src_dst_disjoint 0 2 6 3 3 2 \<longrightarrow>
         (\<forall>r n. r < 3 \<longrightarrow> n < 2 \<longrightarrow>
            s' (elem_addr 6 3 r n) =
              (if r mod 2 = 1 then f32_mul (mem_3x2 (elem_addr 0 2 r n)) (f32_of_int 2)
               else mem_3x2 (elem_addr 6 3 r n)))"
    using kernel_rows_interleaved [OF h, of mem_3x2] unfolding job_3x2_fields by blast
  have e: "\<And>r n. r < 3 \<Longrightarrow> n < 2 \<Longrightarrow>
      s' (elem_addr 6 3 r n) =
        (if r mod 2 = 1 then f32_mul (mem_3x2 (elem_addr 0 2 r n)) (f32_of_int 2)
         else mem_3x2 (elem_addr 6 3 r n))"
    using v job_3x2_disjoint by simp
  have "s' (elem_addr 6 3 1 0) = f32_mul (mem_3x2 (elem_addr 0 2 1 0)) (f32_of_int 2)"
    "s' (elem_addr 6 3 0 0) = mem_3x2 (elem_addr 6 3 0 0)"
    "s' (elem_addr 6 3 2 1) = mem_3x2 (elem_addr 6 3 2 1)"
    using e [of 1 0] e [of 0 0] e [of 2 1] by simp_all
  then show ?thesis using rs k by blast
qed

text \<open>
  C4: for every \<open>nPE \<ge> 1\<close> the row sets of distinct workers below \<open>nPE\<close> are pairwise
  disjoint and their union is every row below \<open>M\<close>, and the kernel's writes follow them:
  the call of worker \<open>c\<close> returns and changes nothing outside the destination rows of its
  row set; for a destination view with \<open>strideDst \<ge> N\<close> whose indices fit in 32 bits the
  destination rows of two different workers are disjoint, so a location that the call of
  one worker changes is left as it was by the call of any other worker, from any store; and,
  the destination being apart from the source, every element of every row \<open>r < M\<close> is
  written, with the scaled source element, by the call of worker \<open>r mod nPE\<close>.
  \<open>M + nPE \<le> 2^32\<close> says that the 32-bit row counter does not wrap.
\<close>

theorem kernel_rows_partition:
  assumes "0 < a_nPE a" and "unat (a_M a) + unat (a_nPE a) \<le> 2 ^ 32"
  shows
    "(\<forall>c1 c2. c1 < a_nPE a \<longrightarrow> c2 < a_nPE a \<longrightarrow> c1 \<noteq> c2 \<longrightarrow>
        worker_row_set c1 (a_M a) (a_nPE a) \<inter> worker_row_set c2 (a_M a) (a_nPE a) = {}) \<and>
     (\<Union>c \<in> {c. c < a_nPE a}. worker_row_set c (a_M a) (a_nPE a)) = {r. r < a_M a} \<and>
     (\<forall>c s. c < a_nPE a \<longrightarrow>
        (\<exists>s'. plp_mat_scale_stride_f32p_xpulpv2 c a s = Some s' \<and>
           (\<forall>x. x \<notin> (\<Union>r \<in> worker_row_set c (a_M a) (a_nPE a).
                          row_dst (a_pDst a) (a_strideDst a) (a_N a) r) \<longrightarrow> s' x = s x))) \<and>
     (unat (a_N a) \<le> unat (a_strideDst a) \<and> unat (a_M a) * unat (a_strideDst a) \<le> 2 ^ 32 \<longrightarrow>
        (\<forall>c1 c2 r1 r2. c1 < a_nPE a \<longrightarrow> c2 < a_nPE a \<longrightarrow> c1 \<noteq> c2 \<longrightarrow>
           r1 \<in> worker_row_set c1 (a_M a) (a_nPE a) \<longrightarrow>
           r2 \<in> worker_row_set c2 (a_M a) (a_nPE a) \<longrightarrow>
           row_dst (a_pDst a) (a_strideDst a) (a_N a) r1 \<inter>
           row_dst (a_pDst a) (a_strideDst a) (a_N a) r2 = {}) \<and>
        (\<forall>c1 c2 s t s' t' x. c1 < a_nPE a \<longrightarrow> c2 < a_nPE a \<longrightarrow> c1 \<noteq> c2 \<longrightarrow>
           plp_mat_scale_stride_f32p_xpulpv2 c1 a s = Some s' \<longrightarrow>
           plp_mat_scale_stride_f32p_xpulpv2 c2 a t = Some t' \<longrightarrow>
           s' x \<noteq> s x \<longrightarrow> t' x = t x)) \<and>
     (unat (a_N a) \<le> unat (a_strideDst a) \<and> unat (a_M a) * unat (a_strideDst a) \<le> 2 ^ 32 \<and>
      src_dst_disjoint (a_pSrc a) (a_strideSrc a) (a_pDst a) (a_strideDst a) (a_M a) (a_N a) \<longrightarrow>
        (\<forall>r n s. r < a_M a \<longrightarrow> n < a_N a \<longrightarrow>
           (\<exists>s'. plp_mat_scale_stride_f32p_xpulpv2 (r mod a_nPE a) a s = Some s' \<and>
              s' (elem_addr (a_pDst a) (a_strideDst a) r n)
                = f32_mul (s (elem_addr (a_pSrc a) (a_strideSrc a) r n)) (a_scaleFactor a))))"
proof -
  let ?W = "\<lambda>c. worker_row_set c (a_M a) (a_nPE a)"
  let ?D = "\<lambda>r. row_dst (a_pDst a) (a_strideDst a) (a_N a) r"
  have W: "?W c = {r. r < a_M a \<and> r mod a_nPE a = c}" if "c < a_nPE a" for c
    using that assms(2) by (rule worker_row_set_eq)
  have p1: "?W c1 \<inter> ?W c2 = {}" if "c1 < a_nPE a" "c2 < a_nPE a" "c1 \<noteq> c2" for c1 c2
    using that by (auto simp: W)
  have p2: "(\<Union>c \<in> {c. c < a_nPE a}. ?W c) = {r. r < a_M a}"
    using word_mod_less [OF assms(1)] by (auto simp: W)
  have p3: "\<exists>s'. plp_mat_scale_stride_f32p_xpulpv2 c a s = Some s' \<and>
      (\<forall>x. x \<notin> (\<Union>r \<in> ?W c. ?D r) \<longrightarrow> s' x = s x)" if "c < a_nPE a" for c s
    using kernel_effect [OF that assms(2), of s] unfolding W [OF that] by blast
  have p4: "?D r1 \<inter> ?D r2 = {}"
    if fit: "unat (a_N a) \<le> unat (a_strideDst a)" "unat (a_M a) * unat (a_strideDst a) \<le> 2 ^ 32"
      and c: "c1 < a_nPE a" "c2 < a_nPE a" "c1 \<noteq> c2" and r: "r1 \<in> ?W c1" "r2 \<in> ?W c2"
    for c1 c2 r1 r2
  proof -
    have "r1 < a_M a" "r2 < a_M a" "r1 \<noteq> r2" using c r by (auto simp: W)
    then show ?thesis using elem_addr_inj [OF fit, of r1 r2] by (auto simp: row_dst_def)
  qed
  have p5: "t' x = t x"
    if fit: "unat (a_N a) \<le> unat (a_strideDst a)" "unat (a_M a) * unat (a_strideDst a) \<le> 2 ^ 32"
      and c: "c1 < a_nPE a" "c2 < a_nPE a" "c1 \<noteq> c2"
      and k: "plp_mat_scale_stride_f32p_xpulpv2 c1 a s = Some s'"
        "plp_mat_scale_stride_f32p_xpulpv2 c2 a t = Some t'"
      and x: "s' x \<noteq> s x"
    for c1 c2 s t s' t' x
  proof -
    have "x \<in> (\<Union>r \<in> ?W c1. ?D r)" using p3 [OF c(1), of s] k(1) x by auto
    then obtain r1 where r1: "r1 \<in> ?W c1" "x \<in> ?D r1" by blast
    have "x \<notin> (\<Union>r \<in> ?W c2. ?D r)" using p4 [OF fit c r1(1)] r1(2) by blast
    then show ?thesis using p3 [OF c(2), of t] k(2) by auto
  qed
  have p6: "\<exists>s'. plp_mat_scale_stride_f32p_xpulpv2 (r mod a_nPE a) a s = Some s' \<and>
      s' (elem_addr (a_pDst a) (a_strideDst a) r n)
        = f32_mul (s (elem_addr (a_pSrc a) (a_strideSrc a) r n)) (a_scaleFactor a)"
    if "unat (a_N a) \<le> unat (a_strideDst a)" "unat (a_M a) * unat (a_strideDst a) \<le> 2 ^ 32"
      "src_dst_disjoint (a_pSrc a) (a_strideSrc a) (a_pDst a) (a_strideDst a) (a_M a) (a_N a)"
      "r < a_M a" "n < a_N a" for r n s
    using kernel_effect [OF word_mod_less [OF assms(1)] assms(2), of r s] that by auto
  show ?thesis
    apply (intro conjI allI impI)
    subgoal by (rule p1)
    subgoal by (rule p2)
    subgoal by (rule p3)
    subgoal by (rule p4) blast+
    subgoal by (rule p5) blast+
    subgoal by (rule p6) blast+
    done
qed

lemma mem_3x2_values:
  "mem_3x2 (elem_addr 0 2 0 0) = f32_of_int 1" "mem_3x2 (elem_addr 6 3 0 0) = f32_of_int 7"
  by (simp_all add: mem_3x2_def mem_of_list_def elem_addr_def)

lemma f32_two_times: "f32_mul (f32_of_int 1) (f32_of_int 2) = f32_of_int 2" "f32_of_int 2 \<noteq> f32_of_int 7"
  by (simp_all add: f32_eval)

theorem kernel_rows_partition_witness:
  "worker_row_set 0 3 2 \<inter> worker_row_set 1 3 2 = {} \<and>
   (\<Union>c \<in> {c. c < 2}. worker_row_set c 3 2) = {r. r < 3} \<and>
   (\<exists>s' t'. plp_mat_scale_stride_f32p_xpulpv2 0 job_3x2 mem_3x2 = Some s' \<and>
      plp_mat_scale_stride_f32p_xpulpv2 1 job_3x2 mem_3x2 = Some t' \<and>
      s' (elem_addr 6 3 0 0) = f32_of_int 2 \<and> mem_3x2 (elem_addr 6 3 0 0) = f32_of_int 7 \<and>
      t' (elem_addr 6 3 0 0) = mem_3x2 (elem_addr 6 3 0 0))"
proof -
  have h: "0 < a_nPE job_3x2" "unat (a_M job_3x2) + unat (a_nPE job_3x2) \<le> 2 ^ 32"
    by (simp_all add: job_3x2_fields)
  note p = kernel_rows_partition [OF h, unfolded job_3x2_fields]
  have fit: "unat (2 :: u32) \<le> unat (3 :: u32) \<and> unat (3 :: u32) * unat (3 :: u32) \<le> 2 ^ 32"
    by simp
  have c: "(0 :: u32) < 2" "(1 :: u32) < 2" "(0 :: u32) \<noteq> 1" "(0 :: u32) < 3" by simp_all
  have d: "worker_row_set 0 3 2 \<inter> worker_row_set 1 3 2 = {}"
    by (rule p [THEN conjunct1, rule_format, OF c(1,2,3)])
  have u: "(\<Union>c \<in> {c. c < 2}. worker_row_set c 3 2) = {r. r < 3}"
    by (rule p [THEN conjunct2, THEN conjunct1])
  obtain s' where s': "plp_mat_scale_stride_f32p_xpulpv2 0 job_3x2 mem_3x2 = Some s'"
    "s' (elem_addr 6 3 0 0) = f32_mul (mem_3x2 (elem_addr 0 2 0 0)) (f32_of_int 2)"
    using p [THEN conjunct2, THEN conjunct2, THEN conjunct2, THEN conjunct2, rule_format,
        OF conjI [OF fit [THEN conjunct1] conjI [OF fit [THEN conjunct2] job_3x2_disjoint]] c(4) c(1),
        of mem_3x2]
    by auto
  obtain t' where t': "plp_mat_scale_stride_f32p_xpulpv2 1 job_3x2 mem_3x2 = Some t'"
    using p [THEN conjunct2, THEN conjunct2, THEN conjunct1, rule_format, OF c(2), of mem_3x2]
    by blast
  have v: "s' (elem_addr 6 3 0 0) = f32_of_int 2" using s'(2) by (simp add: mem_3x2_values f32_two_times)
  then have "s' (elem_addr 6 3 0 0) \<noteq> mem_3x2 (elem_addr 6 3 0 0)"
    by (simp add: mem_3x2_values f32_two_times)
  then have "t' (elem_addr 6 3 0 0) = mem_3x2 (elem_addr 6 3 0 0)"
    by (rule p [THEN conjunct2, THEN conjunct2, THEN conjunct2, THEN conjunct1, rule_format,
        OF fit, THEN conjunct2, rule_format, OF c(1,2,3) s'(1) t'])
  then show ?thesis using d u s'(1) t' v mem_3x2_values(2) by blast
qed

section \<open>The matrix-multiply kernel\<close>

lemma n_loop_fold:
  "n_loop s pSrcA pSrcB N strideA strideB m oc n acc
     = fold (cmplx_mac s pSrcA pSrcB strideA strideB m oc) [unat n..<unat N] acc"
proof (induction s pSrcA pSrcB N strideA strideB m oc n acc rule: n_loop.induct)
  case (1 s pSrcA pSrcB N strideA strideB m oc n sum_re sum_im)
  show ?case
  proof (cases "n < N")
    case True
    then have lt: "unat n < unat N" by (simp add: word_less_nat_alt)
    have upt: "[unat n..<unat N] = unat n # [unat (n + 1)..<unat N]"
      using lt by (simp add: upt_conv_Cons unat_less_Suc [OF True])
    let ?a_re = "s (pSrcA + unat ((m * strideA + n) * 2 + 0))"
    let ?a_im = "s (pSrcA + unat ((m * strideA + n) * 2 + 1))"
    let ?b_re = "s (pSrcB + unat ((n * strideB + oc) * 2 + 0))"
    let ?b_im = "s (pSrcB + unat ((n * strideB + oc) * 2 + 1))"
    let ?acc = "(f32_add sum_re (f32_sub (f32_mul ?a_re ?b_re) (f32_mul ?a_im ?b_im)),
                 f32_add sum_im (f32_add (f32_mul ?a_re ?b_im) (f32_mul ?a_im ?b_re)))"
    have "n_loop s pSrcA pSrcB N strideA strideB m oc n (sum_re, sum_im)
        = n_loop s pSrcA pSrcB N strideA strideB m oc (n + 1) ?acc"
      by (subst n_loop.simps) (simp only: True if_True Let_def)
    also have "\<dots> = fold (cmplx_mac s pSrcA pSrcB strideA strideB m oc) [unat (n + 1)..<unat N] ?acc"
      by (rule "1.IH" [OF True refl refl refl refl])
    also have "?acc = cmplx_mac s pSrcA pSrcB strideA strideB m oc (unat n) (sum_re, sum_im)"
      by (simp only: cmplx_mac_def cmplx_addr_def Let_def fst_conv snd_conv of_nat_unat ucast_id)
    finally show ?thesis by (simp only: upt fold_simps)
  next
    case False
    then have "\<not> unat n < unat N" by (simp add: word_less_nat_alt)
    then show ?thesis using False by (subst n_loop.simps) simp
  qed
qed

lemma n_loop_ref_product:
  "n_loop s pSrcA pSrcB N strideA strideB m oc 0 (f32_zero, f32_zero)
     = ref_product s pSrcA pSrcB N strideA strideB m oc"
  by (simp add: n_loop_fold ref_product_def)

lemma o_loop_frame:
  "(\<And>oc' j. oc \<le> oc' \<Longrightarrow> oc' < OC \<Longrightarrow> j < 2 \<Longrightarrow> x \<noteq> cmplx_addr pDstC strideC m oc' j) \<Longrightarrow>
   o_loop pSrcA pSrcB N OC strideA strideB strideC pDstC m oc s x = s x"
proof (induction pSrcA pSrcB N OC strideA strideB strideC pDstC m oc s rule: o_loop.induct)
  case (1 pSrcA pSrcB N OC strideA strideB strideC pDstC m oc s)
  show ?case
  proof (cases "oc < OC")
    case True
    obtain sum_re sum_im where
      acc: "n_loop s pSrcA pSrcB N strideA strideB m oc 0 (f32_zero, f32_zero) = (sum_re, sum_im)"
      by (cases "n_loop s pSrcA pSrcB N strideA strideB m oc 0 (f32_zero, f32_zero)")
    let ?s1 = "s(pDstC + unat ((m * strideC + oc) * 2 + 0) := sum_re,
                 pDstC + unat ((m * strideC + oc) * 2 + 1) := sum_im)"
    have "o_loop pSrcA pSrcB N OC strideA strideB strideC pDstC m (oc + 1) ?s1 x = ?s1 x"
    proof (rule "1.IH" [OF True acc [symmetric] refl])
      fix oc' j :: u32 assume "oc + 1 \<le> oc'" "oc' < OC" "j < 2"
      moreover have "oc \<le> oc + 1" using word_less_Suc [OF True] by simp
      ultimately show "x \<noteq> cmplx_addr pDstC strideC m oc' j" using "1.prems" by auto
    qed
    moreover have "x \<noteq> cmplx_addr pDstC strideC m oc 0" "x \<noteq> cmplx_addr pDstC strideC m oc 1"
      using "1.prems" [of oc 0] "1.prems" [of oc 1] True by simp_all
    ultimately show ?thesis
      using True acc by (subst o_loop.simps) (simp add: cmplx_addr_def)
  next
    case False
    then show ?thesis by (subst o_loop.simps) simp
  qed
qed

lemma m_loop_frame:
  "(\<And>m' oc' j. m \<le> m' \<Longrightarrow> m' < M \<Longrightarrow> oc' < OC \<Longrightarrow> j < 2 \<Longrightarrow>
      x \<noteq> cmplx_addr pDstC strideC m' oc' j) \<Longrightarrow>
   m_loop pSrcA pSrcB M N OC strideA strideB strideC pDstC m s x = s x"
proof (induction pSrcA pSrcB M N OC strideA strideB strideC pDstC m s rule: m_loop.induct)
  case (1 pSrcA pSrcB M N OC strideA strideB strideC pDstC m s)
  show ?case
  proof (cases "m < M")
    case True
    let ?s1 = "o_loop pSrcA pSrcB N OC strideA strideB strideC pDstC m 0 s"
    have "m_loop pSrcA pSrcB M N OC strideA strideB strideC pDstC (m + 1) ?s1 x = ?s1 x"
    proof (rule "1.IH" [OF True])
      fix m' oc' j :: u32 assume "m + 1 \<le> m'" "m' < M" "oc' < OC" "j < 2"
      moreover have "m \<le> m + 1" using word_less_Suc [OF True] by simp
      ultimately show "x \<noteq> cmplx_addr pDstC strideC m' oc' j" using "1.prems" by auto
    qed
    moreover have "?s1 x = s x"
      using "1.prems" [of m] True by (intro o_loop_frame) simp
    ultimately show ?thesis using True by (subst m_loop.simps) simp
  next
    case False
    then show ?thesis by (subst m_loop.simps) simp
  qed
qed

lemma word_less_2_iff: "(j :: u32) < 2 \<longleftrightarrow> j = 0 \<or> j = 1"
  using word_less_2 by auto

lemma n_loop_empty: "n_loop s pSrcA pSrcB 0 strideA strideB m oc 0 acc = acc"
  by (cases acc) (simp add: n_loop.simps)

lemma o_loop_zero_or_same:
  "o_loop pSrcA pSrcB 0 OC strideA strideB strideC pDstC m oc s x = f32_zero \<or>
   o_loop pSrcA pSrcB 0 OC strideA strideB strideC pDstC m oc s x = s x"
proof (induction pSrcA pSrcB "0 :: u32" OC strideA strideB strideC pDstC m oc s rule: o_loop.induct)
  case (1 pSrcA pSrcB OC strideA strideB strideC pDstC m oc s)
  show ?case
  proof (cases "oc < OC")
    case True
    let ?s1 = "s(pDstC + unat ((m * strideC + oc) * 2 + 0) := f32_zero,
                 pDstC + unat ((m * strideC + oc) * 2 + 1) := f32_zero)"
    have step: "o_loop pSrcA pSrcB 0 OC strideA strideB strideC pDstC m oc s
        = o_loop pSrcA pSrcB 0 OC strideA strideB strideC pDstC m (oc + 1) ?s1"
      using True by (subst o_loop.simps) (simp add: n_loop_empty)
    have "o_loop pSrcA pSrcB 0 OC strideA strideB strideC pDstC m (oc + 1) ?s1 x = f32_zero \<or>
          o_loop pSrcA pSrcB 0 OC strideA strideB strideC pDstC m (oc + 1) ?s1 x = ?s1 x"
      by (rule "1.hyps" [OF True n_loop_empty [symmetric] refl])
    moreover have "?s1 x = f32_zero \<or> ?s1 x = s x" by simp
    ultimately show ?thesis unfolding step by auto
  next
    case False
    then show ?thesis by (subst (1 2) o_loop.simps) simp
  qed
qed

lemma o_loop_zero_written:
  "oc \<le> oc' \<Longrightarrow> oc' < OC \<Longrightarrow> j < 2 \<Longrightarrow>
   o_loop pSrcA pSrcB 0 OC strideA strideB strideC pDstC m oc s (cmplx_addr pDstC strideC m oc' j)
     = f32_zero"
proof (induction pSrcA pSrcB "0 :: u32" OC strideA strideB strideC pDstC m oc s rule: o_loop.induct)
  case (1 pSrcA pSrcB OC strideA strideB strideC pDstC m oc s)
  have lt: "oc < OC" using "1.prems" by simp
  let ?s1 = "s(pDstC + unat ((m * strideC + oc) * 2 + 0) := f32_zero,
               pDstC + unat ((m * strideC + oc) * 2 + 1) := f32_zero)"
  have step: "o_loop pSrcA pSrcB 0 OC strideA strideB strideC pDstC m oc s
      = o_loop pSrcA pSrcB 0 OC strideA strideB strideC pDstC m (oc + 1) ?s1"
    using lt by (subst o_loop.simps) (simp add: n_loop_empty)
  show ?case
  proof (cases "oc' = oc")
    case True
    have "?s1 (cmplx_addr pDstC strideC m oc j) = f32_zero"
      using "1.prems"(3) by (auto simp: word_less_2_iff cmplx_addr_def)
    then show ?thesis
      unfolding step True
      using o_loop_zero_or_same [of pSrcA pSrcB OC strideA strideB strideC pDstC m "oc + 1" ?s1
          "cmplx_addr pDstC strideC m oc j"]
      by auto
  next
    case False
    then have "oc < oc'" using "1.prems"(1) by simp
    then have "oc + 1 \<le> oc'" by (rule word_Suc_le)
    then show ?thesis
      unfolding step
      by (rule "1.hyps" [OF lt n_loop_empty [symmetric] refl _ "1.prems"(2,3)])
  qed
qed

lemma m_loop_zero_or_same:
  "m_loop pSrcA pSrcB M 0 OC strideA strideB strideC pDstC m s x = f32_zero \<or>
   m_loop pSrcA pSrcB M 0 OC strideA strideB strideC pDstC m s x = s x"
proof (induction pSrcA pSrcB M "0 :: u32" OC strideA strideB strideC pDstC m s rule: m_loop.induct)
  case (1 pSrcA pSrcB M OC strideA strideB strideC pDstC m s)
  show ?case
  proof (cases "m < M")
    case True
    let ?s1 = "o_loop pSrcA pSrcB 0 OC strideA strideB strideC pDstC m 0 s"
    have step: "m_loop pSrcA pSrcB M 0 OC strideA strideB strideC pDstC m s
        = m_loop pSrcA pSrcB M 0 OC strideA strideB strideC pDstC (m + 1) ?s1"
      using True by (subst m_loop.simps) simp
    have "m_loop pSrcA pSrcB M 0 OC strideA strideB strideC pDstC (m + 1) ?s1 x = f32_zero \<or>
          m_loop pSrcA pSrcB M 0 OC strideA strideB strideC pDstC (m + 1) ?s1 x = ?s1 x"
      by (rule "1.hyps" [OF True])
    moreover have "?s1 x = f32_zero \<or> ?s1 x = s x" by (rule o_loop_zero_or_same)
    ultimately show ?thesis unfolding step by auto
  next
    case False
    then show ?thesis by (subst (1 2) m_loop.simps) simp
  qed
qed

lemma m_loop_zero_written:
  "m \<le> m' \<Longrightarrow> m' < M \<Longrightarrow> oc' < OC \<Longrightarrow> j < 2 \<Longrightarrow>
   m_loop pSrcA pSrcB M 0 OC strideA strideB strideC pDstC m s (cmplx_addr pDstC strideC m' oc' j)
     = f32_zero"
proof (induction pSrcA pSrcB M "0 :: u32" OC strideA strideB strideC pDstC m s rule: m_loop.induct)
  case (1 pSrcA pSrcB M OC strideA strideB strideC pDstC m s)
  have lt: "m < M" using "1.prems" by simp
  let ?s1 = "o_loop pSrcA pSrcB 0 OC strideA strideB strideC pDstC m 0 s"
  have step: "m_loop pSrcA pSrcB M 0 OC strideA strideB strideC pDstC m s
      = m_loop pSrcA pSrcB M 0 OC strideA strideB strideC pDstC (m + 1) ?s1"
    using lt by (subst m_loop.simps) simp
  show ?case
  proof (cases "m' = m")
    case True
    have "?s1 (cmplx_addr pDstC strideC m oc' j) = f32_zero"
      using "1.prems"(3,4) by (intro o_loop_zero_written) simp_all
    then show ?thesis
      unfolding step True
      using m_loop_zero_or_same [of pSrcA pSrcB M OC strideA strideB strideC pDstC "m + 1" ?s1
          "cmplx_addr pDstC strideC m oc' j"]
      by auto
  next
    case False
    then have "m < m'" using "1.prems"(1) by simp
    then have "m + 1 \<le> m'" by (rule word_Suc_le)
    then show ?thesis
      unfolding step
      by (rule "1.hyps" [OF lt _ "1.prems"(2,3,4)])
  qed
qed

text \<open>
  C2: with \<open>N = 0\<close> every scalar of the destination view, real or imaginary, is exactly
  zero after the call, whatever the strides and the prior contents; the loops run to their
  end, the result is a store.
\<close>

theorem empty_reduction_zero:
  "m < M \<Longrightarrow> oc < OC \<Longrightarrow> j < 2 \<Longrightarrow>
   plp_mat_mult_cmplx_stride_f32s_xpulpv2 pSrcA pSrcB M 0 OC strideA strideB strideC pDstC s
     (cmplx_addr pDstC strideC m oc j) = f32_zero"
  unfolding plp_mat_mult_cmplx_stride_f32s_xpulpv2_def
  by (rule m_loop_zero_written) simp_all

lemma unat_cmplx_index:
  assumes "unat oc < unat sC" "unat m < unat M" "2 * (unat M * unat sC) \<le> 2 ^ 32" "j < 2"
  shows "unat (((m :: u32) * sC + oc) * 2 + j) = (unat m * unat sC + unat oc) * 2 + unat j"
proof -
  have k: "unat (m * sC + oc) = unat m * unat sC + unat oc"
    using assms(1,2,3) by (intro unat_elem_index [where M = M]) simp_all
  have "unat m * unat sC + unat oc < Suc (unat m) * unat sC" using assms(1) by simp
  also have "\<dots> \<le> unat M * unat sC" using assms(2) by (intro mult_le_mono1) simp
  finally have b: "unat (m * sC + oc) < unat M * unat sC" using k by simp
  have j: "unat j < 2" using assms(4) by (simp add: word_less_nat_alt)
  have "unat (m * sC + oc) * unat (2 :: u32) < 2 ^ LENGTH(32)" using b assms(3) by simp
  then have d: "unat ((m * sC + oc) * 2) = unat (m * sC + oc) * unat (2 :: u32)"
    by (simp only: unat_mult_lem)
  then have "unat ((m * sC + oc) * 2) + unat j < 2 ^ LENGTH(32)" using b j assms(3) by simp
  then have "unat ((m * sC + oc) * 2 + j) = unat ((m * sC + oc) * 2) + unat j"
    by (simp only: unat_add_lem)
  then show ?thesis using d k by simp
qed

lemma cmplx_addr_inj:
  assumes "unat OC \<le> unat sC" "2 * (unat M * unat sC) \<le> 2 ^ 32"
    and "m < M" "m' < M" "oc < OC" "oc' < OC" "j < 2" "j' < 2"
    and "cmplx_addr p sC m oc j = cmplx_addr p sC m' oc' j'"
  shows "m = m' \<and> oc = oc' \<and> j = j'"
proof -
  have o: "unat oc < unat sC" "unat oc' < unat sC" and m: "unat m < unat M" "unat m' < unat M"
    and j: "unat j < 2" "unat j' < 2"
    using assms by (auto simp: word_less_nat_alt)
  have "(unat m * unat sC + unat oc) * 2 + unat j = (unat m' * unat sC + unat oc') * 2 + unat j'"
    using assms(9) unat_cmplx_index [OF o(1) m(1) assms(2) assms(7)]
      unat_cmplx_index [OF o(2) m(2) assms(2) assms(8)]
    by (simp add: cmplx_addr_def)
  then have e: "unat m * unat sC + unat oc = unat m' * unat sC + unat oc'" and "unat j = unat j'"
    using j by presburger+
  then have jj: "j = j'" by (simp only: word_unat_eq_iff)
  have "(unat oc + unat m * unat sC) div unat sC = (unat oc' + unat m' * unat sC) div unat sC"
    "(unat oc + unat m * unat sC) mod unat sC = (unat oc' + unat m' * unat sC) mod unat sC"
    using e by (simp_all add: add.commute)
  then have "unat m = unat m'" "unat oc = unat oc'" using o by simp_all
  then show ?thesis using jj by (simp only: word_unat_eq_iff)
qed

lemma of_nat_less_word: "n < unat (N :: u32) \<Longrightarrow> (of_nat n :: u32) < N"
proof -
  assume a: "n < unat N"
  have "unat N < 2 ^ 32" using unsigned_less [of N, where ?'a = nat] by simp
  then have "unat (of_nat n :: u32) = n" using a by (simp add: unat_of_nat)
  then show ?thesis using a by (simp add: word_less_nat_alt)
qed

lemma ref_product_cong:
  assumes "\<And>x. x \<in> src_addrs pSrcA pSrcB strideA strideB M N OC \<Longrightarrow> s x = s0 x"
    and "m < M" "oc < OC"
  shows "ref_product s pSrcA pSrcB N strideA strideB m oc
       = ref_product s0 pSrcA pSrcB N strideA strideB m oc"
  unfolding ref_product_def
proof (rule fold_cong [OF refl refl])
  fix n assume "n \<in> set [0..<unat N]"
  then have n: "(of_nat n :: u32) < N" by (simp add: of_nat_less_word)
  have "cmplx_addr pSrcA strideA m (of_nat n) j \<in> src_addrs pSrcA pSrcB strideA strideB M N OC"
    "cmplx_addr pSrcB strideB (of_nat n) oc j \<in> src_addrs pSrcA pSrcB strideA strideB M N OC"
    if "j < 2" for j
    using that n assms(2,3) by (auto simp: src_addrs_def)
  then have "s (cmplx_addr pSrcA strideA m (of_nat n) j) = s0 (cmplx_addr pSrcA strideA m (of_nat n) j)"
    "s (cmplx_addr pSrcB strideB (of_nat n) oc j) = s0 (cmplx_addr pSrcB strideB (of_nat n) oc j)"
    if "j < 2" for j
    using that assms(1) by simp_all
  from this [of 0] this [of 1]
  show "cmplx_mac s pSrcA pSrcB strideA strideB m oc n = cmplx_mac s0 pSrcA pSrcB strideA strideB m oc n"
    by (intro ext) (simp add: cmplx_mac_def)
qed

lemma cmplx_addr_re_im: "p + unat (w * 2 + 0 :: u32) \<noteq> p + unat (w * 2 + 1 :: u32)"
proof
  assume "p + unat (w * 2 + 0) = p + unat (w * 2 + 1)"
  then have "unat (w * 2 + 0) = unat (w * 2 + 1)" by simp
  then have "w * 2 + 0 = w * 2 + 1" by (simp only: word_unat_eq_iff)
  then show False by simp
qed

lemma dst_addrsI:
  "m < M \<Longrightarrow> oc < OC \<Longrightarrow> j < 2 \<Longrightarrow> cmplx_addr pDstC strideC m oc j \<in> dst_addrs pDstC strideC M OC"
  unfolding dst_addrs_def by blast

lemma o_loop_value:
  "unat OC \<le> unat strideC \<Longrightarrow> 2 * (unat M * unat strideC) \<le> 2 ^ 32 \<Longrightarrow>
   dst_addrs pDstC strideC M OC \<inter> src_addrs pSrcA pSrcB strideA strideB M N OC = {} \<Longrightarrow>
   m < M \<Longrightarrow>
   (\<And>x. x \<in> src_addrs pSrcA pSrcB strideA strideB M N OC \<Longrightarrow> s x = s0 x) \<Longrightarrow>
   oc \<le> oc' \<Longrightarrow> oc' < OC \<Longrightarrow> j < 2 \<Longrightarrow>
   o_loop pSrcA pSrcB N OC strideA strideB strideC pDstC m oc s (cmplx_addr pDstC strideC m oc' j)
     = (if j = 0 then fst (ref_product s0 pSrcA pSrcB N strideA strideB m oc')
        else snd (ref_product s0 pSrcA pSrcB N strideA strideB m oc'))"
proof (induction pSrcA pSrcB N OC strideA strideB strideC pDstC m oc s rule: o_loop.induct)
  case (1 pSrcA pSrcB N OC strideA strideB strideC pDstC m oc s)
  note fit = "1.prems"(1,2) and noalias = "1.prems"(3) and mM = "1.prems"(4)
    and agree = "1.prems"(5) and j = "1.prems"(8)
  have lt: "oc < OC" using "1.prems"(6,7) by simp
  obtain sum_re sum_im where
    acc: "n_loop s pSrcA pSrcB N strideA strideB m oc 0 (f32_zero, f32_zero) = (sum_re, sum_im)"
    by (cases "n_loop s pSrcA pSrcB N strideA strideB m oc 0 (f32_zero, f32_zero)")
  have ref: "ref_product s0 pSrcA pSrcB N strideA strideB m oc = (sum_re, sum_im)"
    using acc ref_product_cong [OF agree mM lt] by (simp add: n_loop_ref_product)
  let ?s1 = "s(pDstC + unat ((m * strideC + oc) * 2 + 0) := sum_re,
               pDstC + unat ((m * strideC + oc) * 2 + 1) := sum_im)"
  have step: "o_loop pSrcA pSrcB N OC strideA strideB strideC pDstC m oc s
      = o_loop pSrcA pSrcB N OC strideA strideB strideC pDstC m (oc + 1) ?s1"
    using lt acc by (subst o_loop.simps) simp
  have d: "cmplx_addr pDstC strideC m oc 0 \<in> dst_addrs pDstC strideC M OC"
    "cmplx_addr pDstC strideC m oc 1 \<in> dst_addrs pDstC strideC M OC"
    using mM lt by (simp_all add: dst_addrsI)
  have agree1: "?s1 x = s0 x" if "x \<in> src_addrs pSrcA pSrcB strideA strideB M N OC" for x
  proof -
    have "x \<noteq> cmplx_addr pDstC strideC m oc 0" "x \<noteq> cmplx_addr pDstC strideC m oc 1"
      using that d noalias by auto
    then show ?thesis using agree [OF that] by (simp add: cmplx_addr_def)
  qed
  show ?case
  proof (cases "oc' = oc")
    case True
    have "o_loop pSrcA pSrcB N OC strideA strideB strideC pDstC m (oc + 1) ?s1
            (cmplx_addr pDstC strideC m oc j) = ?s1 (cmplx_addr pDstC strideC m oc j)"
    proof (rule o_loop_frame)
      fix oc'' j' :: u32 assume a: "oc + 1 \<le> oc''" "oc'' < OC" "j' < 2"
      then have "oc \<noteq> oc''" using word_less_Suc [OF lt] by auto
      then show "cmplx_addr pDstC strideC m oc j \<noteq> cmplx_addr pDstC strideC m oc'' j'"
        using cmplx_addr_inj [OF fit mM mM lt a(2) j a(3)] by auto
    qed
    moreover have "?s1 (cmplx_addr pDstC strideC m oc j) = (if j = 0 then sum_re else sum_im)"
    proof (cases "j = 0")
      case True
      then show ?thesis
        unfolding cmplx_addr_def using cmplx_addr_re_im [of pDstC "m * strideC + oc"]
        by (simp only: fun_upd_apply if_True if_False refl)
    next
      case False
      then have "j = 1" using j by (simp add: word_less_2_iff)
      then show ?thesis unfolding cmplx_addr_def by simp
    qed
    ultimately show ?thesis unfolding step True ref by simp
  next
    case False
    then have "oc < oc'" using "1.prems"(6) by simp
    then have le: "oc + 1 \<le> oc'" by (rule word_Suc_le)
    show ?thesis
      unfolding step
    proof (rule "1.IH" [OF lt acc [symmetric] refl fit noalias mM _ le "1.prems"(7) j])
      fix x assume "x \<in> src_addrs pSrcA pSrcB strideA strideB M N OC"
      then show "?s1 x = s0 x" by (rule agree1)
    qed
  qed
qed

lemma m_loop_value:
  "unat OC \<le> unat strideC \<Longrightarrow> 2 * (unat M * unat strideC) \<le> 2 ^ 32 \<Longrightarrow>
   dst_addrs pDstC strideC M OC \<inter> src_addrs pSrcA pSrcB strideA strideB M N OC = {} \<Longrightarrow>
   (\<And>x. x \<in> src_addrs pSrcA pSrcB strideA strideB M N OC \<Longrightarrow> s x = s0 x) \<Longrightarrow>
   m \<le> m' \<Longrightarrow> m' < M \<Longrightarrow> oc' < OC \<Longrightarrow> j < 2 \<Longrightarrow>
   m_loop pSrcA pSrcB M N OC strideA strideB strideC pDstC m s (cmplx_addr pDstC strideC m' oc' j)
     = (if j = 0 then fst (ref_product s0 pSrcA pSrcB N strideA strideB m' oc')
        else snd (ref_product s0 pSrcA pSrcB N strideA strideB m' oc'))"
proof (induction pSrcA pSrcB M N OC strideA strideB strideC pDstC m s rule: m_loop.induct)
  case (1 pSrcA pSrcB M N OC strideA strideB strideC pDstC m s)
  note fit = "1.prems"(1,2) and noalias = "1.prems"(3) and agree = "1.prems"(4)
    and oc = "1.prems"(7) and j = "1.prems"(8)
  have lt: "m < M" using "1.prems"(5,6) by simp
  let ?s1 = "o_loop pSrcA pSrcB N OC strideA strideB strideC pDstC m 0 s"
  have step: "m_loop pSrcA pSrcB M N OC strideA strideB strideC pDstC m s
      = m_loop pSrcA pSrcB M N OC strideA strideB strideC pDstC (m + 1) ?s1"
    using lt by (subst m_loop.simps) simp
  have agree1: "?s1 x = s0 x" if "x \<in> src_addrs pSrcA pSrcB strideA strideB M N OC" for x
  proof -
    have "?s1 x = s x"
    proof (rule o_loop_frame)
      fix oc'' j' :: u32 assume "oc'' < OC" "j' < 2"
      then have "cmplx_addr pDstC strideC m oc'' j' \<in> dst_addrs pDstC strideC M OC"
        using lt by (simp add: dst_addrsI)
      then show "x \<noteq> cmplx_addr pDstC strideC m oc'' j'" using that noalias by auto
    qed
    then show ?thesis using agree [OF that] by simp
  qed
  show ?case
  proof (cases "m' = m")
    case True
    have "m_loop pSrcA pSrcB M N OC strideA strideB strideC pDstC (m + 1) ?s1
            (cmplx_addr pDstC strideC m oc' j) = ?s1 (cmplx_addr pDstC strideC m oc' j)"
    proof (rule m_loop_frame)
      fix m'' oc'' j' :: u32 assume a: "m + 1 \<le> m''" "m'' < M" "oc'' < OC" "j' < 2"
      then have "m \<noteq> m''" using word_less_Suc [OF lt] by auto
      then show "cmplx_addr pDstC strideC m oc' j \<noteq> cmplx_addr pDstC strideC m'' oc'' j'"
        using cmplx_addr_inj [OF fit lt a(2) oc a(3) j a(4)] by auto
    qed
    moreover have "?s1 (cmplx_addr pDstC strideC m oc' j)
        = (if j = 0 then fst (ref_product s0 pSrcA pSrcB N strideA strideB m oc')
           else snd (ref_product s0 pSrcA pSrcB N strideA strideB m oc'))"
    proof (rule o_loop_value [OF fit noalias lt _ _ oc j])
      fix x assume "x \<in> src_addrs pSrcA pSrcB strideA strideB M N OC"
      then show "s x = s0 x" by (rule agree)
    qed simp
    ultimately show ?thesis unfolding step True by simp
  next
    case False
    then have "m < m'" using "1.prems"(5) by simp
    then have le: "m + 1 \<le> m'" by (rule word_Suc_le)
    show ?thesis
      unfolding step
    proof (rule "1.IH" [OF lt fit noalias _ le "1.prems"(6) oc j])
      fix x assume "x \<in> src_addrs pSrcA pSrcB strideA strideB M N OC"
      then show "?s1 x = s0 x" by (rule agree1)
    qed
  qed
qed

text \<open>
  C1: for every row \<open>m < M\<close> and column \<open>o < O\<close> the kernel leaves in
  \<open>C[m,o]\<close> the reference product of row \<open>m\<close> of \<open>A\<close> and column \<open>o\<close> of \<open>B\<close>,
  accumulated in the order and with the operations of \<open>ref_product\<close>, real part at
  offset \<open>(m * strideC + o) * 2\<close> and imaginary part one further. The views are
  well-formed: \<open>strideC \<ge> O\<close>, the indices of the destination view fit in 32 bits, and
  the destination does not overlap the locations read (\<^verbatim>\<open>__restrict__\<close>). \<open>strideA \<ge> N\<close>
  and \<open>strideB \<ge> O\<close> are not needed.
\<close>

theorem kernel_computes_product:
  assumes "unat OC \<le> unat strideC" and "2 * (unat M * unat strideC) \<le> 2 ^ 32"
    and "dst_addrs pDstC strideC M OC \<inter> src_addrs pSrcA pSrcB strideA strideB M N OC = {}"
    and "m < M" and "oc < OC"
  shows "plp_mat_mult_cmplx_stride_f32s_xpulpv2 pSrcA pSrcB M N OC strideA strideB strideC pDstC s
           (cmplx_addr pDstC strideC m oc 0)
         = fst (ref_product s pSrcA pSrcB N strideA strideB m oc) \<and>
         plp_mat_mult_cmplx_stride_f32s_xpulpv2 pSrcA pSrcB M N OC strideA strideB strideC pDstC s
           (cmplx_addr pDstC strideC m oc 1)
         = snd (ref_product s pSrcA pSrcB N strideA strideB m oc)"
  unfolding plp_mat_mult_cmplx_stride_f32s_xpulpv2_def
  using m_loop_value [OF assms(1,2,3) refl _ assms(4,5), of 0 0 s]
    m_loop_value [OF assms(1,2,3) refl _ assms(4,5), of 0 1 s]
  by simp

lemma f32_small_ints:
  "f32_of_int 1 = Finite False 8388608 (- 23)"
  "f32_of_int 2 = Finite False 8388608 (- 22)"
  "f32_of_int 3 = Finite False 12582912 (- 22)"
  "f32_of_int 4 = Finite False 8388608 (- 21)"
  "f32_of_int 0 = Finite False 0 (- 149)"
  "f32_of_int (- 5) = Finite True 10485760 (- 21)"
  "f32_of_int 10 = Finite False 10485760 (- 20)"
  by (simp_all add: f32_eval)

lemma mem_1x1_values:
  "mem_1x1 0 = Finite False 8388608 (- 23)" "mem_1x1 (Suc 0) = Finite False 8388608 (- 22)"
  "mem_1x1 2 = Finite False 12582912 (- 22)" "mem_1x1 3 = Finite False 8388608 (- 21)"
  by (simp_all add: mem_1x1_def mem_of_list_def f32_small_ints)

lemma n_loop_1x1:
  "n_loop mem_1x1 0 2 1 1 1 0 0 0 (f32_zero, f32_zero)
     = (Finite True 10485760 (- 21), Finite False 10485760 (- 20))"
  by (simp add: n_loop.simps mem_1x1_values f32_eval)

lemma card_word_less: "card {m :: u32. m < M} = unat M"
proof -
  have "unat ` {m :: u32. m < M} = {..<unat M}"
  proof (rule set_eqI, rule iffI)
    fix k assume "k \<in> unat ` {m :: u32. m < M}"
    then show "k \<in> {..<unat M}" by (auto simp: word_less_nat_alt)
  next
    fix k assume "k \<in> {..<unat M}"
    then have k: "k < unat M" by simp
    then have "(of_nat k :: u32) < M" by (rule of_nat_less_word)
    moreover have "unat (of_nat k :: u32) = k"
      using k unsigned_less [of M, where ?'a = nat] by (simp add: unat_of_nat)
    ultimately show "k \<in> unat ` {m :: u32. m < M}" by (metis (mono_tags) imageI mem_Collect_eq)
  qed
  moreover have "inj_on unat {m :: u32. m < M}"
    by (rule inj_onI) (simp add: word_unat_eq_iff)
  ultimately show ?thesis by (metis card_image card_lessThan)
qed

lemma card_dst_addrs:
  assumes "unat OC \<le> unat strideC" "2 * (unat M * unat strideC) \<le> 2 ^ 32"
  shows "card (dst_addrs pDstC strideC M OC) = 2 * (unat M * unat OC)"
proof -
  let ?D = "{m :: u32. m < M} \<times> {oc :: u32. oc < OC} \<times> {j :: u32. j < 2}"
  let ?f = "\<lambda>(m, oc, j). cmplx_addr pDstC strideC m oc j"
  have "dst_addrs pDstC strideC M OC = ?f ` ?D"
    unfolding dst_addrs_def by (auto simp: image_iff) blast
  moreover have "inj_on ?f ?D"
  proof (rule inj_onI)
    fix x y assume "x \<in> ?D" "y \<in> ?D" "?f x = ?f y"
    then show "x = y"
      using cmplx_addr_inj [OF assms, of "fst x" "fst y" "fst (snd x)" "fst (snd y)"
          "snd (snd x)" "snd (snd y)" pDstC]
      by (cases x, cases y) auto
  qed
  ultimately have "card (dst_addrs pDstC strideC M OC) = card ?D" by (simp add: card_image)
  also have "\<dots> = unat M * (unat OC * 2)"
    using card_word_less [of 2] by (simp add: card_cartesian_product card_word_less del: word_less_2)
  finally show ?thesis by simp
qed

text \<open>
  C9: the kernel writes exactly the destination view. Nothing outside the scalars at
  \<open>pDstC[(m * strideC + o) * 2 + j]\<close> with \<open>m < M\<close>, \<open>o < O\<close> and \<open>j < 2\<close> changes:
  the stride padding between the logical rows keeps its values, and, the destination not
  overlapping them, so do all locations of \<open>A\<close> and \<open>B\<close> that the kernel reads. For
  \<open>strideC \<ge> O\<close> and indices that fit in 32 bits the view consists of \<open>2 * M * O\<close>
  distinct scalars, the \<open>M * O\<close> complex output elements; and on such a view that does not
  overlap the inputs every one of these elements is written: whatever it held before, after
  the call it holds the sum accumulated for its row and column.
\<close>

theorem kernel_writes_view:
  "(\<forall>x. x \<notin> dst_addrs pDstC strideC M OC \<longrightarrow>
      plp_mat_mult_cmplx_stride_f32s_xpulpv2 pSrcA pSrcB M N OC strideA strideB strideC pDstC s x
        = s x) \<and>
   (dst_addrs pDstC strideC M OC \<inter> src_addrs pSrcA pSrcB strideA strideB M N OC = {} \<longrightarrow>
      (\<forall>x \<in> src_addrs pSrcA pSrcB strideA strideB M N OC.
         plp_mat_mult_cmplx_stride_f32s_xpulpv2 pSrcA pSrcB M N OC strideA strideB strideC pDstC s x
           = s x)) \<and>
   (unat OC \<le> unat strideC \<and> 2 * (unat M * unat strideC) \<le> 2 ^ 32 \<longrightarrow>
      card (dst_addrs pDstC strideC M OC) = 2 * (unat M * unat OC)) \<and>
   (unat OC \<le> unat strideC \<and> 2 * (unat M * unat strideC) \<le> 2 ^ 32 \<and>
    dst_addrs pDstC strideC M OC \<inter> src_addrs pSrcA pSrcB strideA strideB M N OC = {} \<longrightarrow>
      (\<forall>m oc. m < M \<longrightarrow> oc < OC \<longrightarrow>
         plp_mat_mult_cmplx_stride_f32s_xpulpv2 pSrcA pSrcB M N OC strideA strideB strideC pDstC s
           (cmplx_addr pDstC strideC m oc 0)
         = fst (ref_product s pSrcA pSrcB N strideA strideB m oc) \<and>
         plp_mat_mult_cmplx_stride_f32s_xpulpv2 pSrcA pSrcB M N OC strideA strideB strideC pDstC s
           (cmplx_addr pDstC strideC m oc 1)
         = snd (ref_product s pSrcA pSrcB N strideA strideB m oc)))"
proof -
  let ?K = "plp_mat_mult_cmplx_stride_f32s_xpulpv2 pSrcA pSrcB M N OC strideA strideB strideC pDstC s"
  have frame: "?K x = s x" if "x \<notin> dst_addrs pDstC strideC M OC" for x
    unfolding plp_mat_mult_cmplx_stride_f32s_xpulpv2_def
    using that by (intro m_loop_frame) (auto simp: dst_addrs_def)
  have written: "?K (cmplx_addr pDstC strideC m oc 0)
        = fst (ref_product s pSrcA pSrcB N strideA strideB m oc) \<and>
      ?K (cmplx_addr pDstC strideC m oc 1) = snd (ref_product s pSrcA pSrcB N strideA strideB m oc)"
    if h: "unat OC \<le> unat strideC" "2 * (unat M * unat strideC) \<le> 2 ^ 32"
      "dst_addrs pDstC strideC M OC \<inter> src_addrs pSrcA pSrcB strideA strideB M N OC = {}"
      and m: "m < M" "oc < OC" for m oc
    unfolding plp_mat_mult_cmplx_stride_f32s_xpulpv2_def
    using m_loop_value [OF h refl _ m, of 0 0 s] m_loop_value [OF h refl _ m, of 0 1 s]
    by simp
  show ?thesis
    apply (intro conjI allI impI ballI)
    subgoal by (rule frame)
    subgoal using frame by blast
    subgoal using card_dst_addrs [of OC strideC M pDstC] by blast
    subgoal using written by blast
    subgoal using written by blast
    done
qed

text \<open>
  C8: for the 1 by 1 inputs \<open>A = [[1+2i]]\<close> and \<open>B = [[3+4i]]\<close>, strides equal to the
  widths, the kernel stores \<open>C = [[-5+10i]]\<close>, exactly, in binary32 arithmetic.
\<close>

theorem kernel_1x1_example:
  "plp_mat_mult_cmplx_stride_f32s_xpulpv2 0 2 1 1 1 1 1 1 4 mem_1x1 4 = f32_of_int (- 5) \<and>
   plp_mat_mult_cmplx_stride_f32s_xpulpv2 0 2 1 1 1 1 1 1 4 mem_1x1 5 = f32_of_int 10"
  by (simp add: plp_mat_mult_cmplx_stride_f32s_xpulpv2_def m_loop.simps o_loop.simps n_loop_1x1
      f32_small_ints)

lemma dst_2x2: "dst_addrs 16 3 2 2 \<subseteq> {16, 17, 18, 19, 22, 23, 24, 25}"
  by (auto simp: dst_addrs_def cmplx_addr_def word_less_2_iff)

lemma src_2x2: "src_addrs 0 8 2 2 2 2 2 \<subseteq> {x. x < 16}"
  by (auto simp: src_addrs_def cmplx_addr_def word_less_2_iff)

lemma src_addrsI:
  "m < M \<Longrightarrow> n < N \<Longrightarrow> j < 2 \<Longrightarrow>
   cmplx_addr pSrcA strideA m n j \<in> src_addrs pSrcA pSrcB strideA strideB M N OC"
  unfolding src_addrs_def by blast

lemma views_2x2_disjoint: "dst_addrs 16 3 2 2 \<inter> src_addrs 0 8 2 2 2 2 2 = {}"
proof -
  have "False" if a: "x \<in> dst_addrs 16 3 2 2" "x \<in> src_addrs 0 8 2 2 2 2 2" for x
  proof -
    have "16 \<le> x" using subsetD [OF dst_2x2 a(1)] by auto
    moreover have "x < 16" using subsetD [OF src_2x2 a(2)] by simp
    ultimately show False by simp
  qed
  then show ?thesis by blast
qed

lemma upt_2: "[0..<unat (2 :: u32)] = [0, 1]"
  by (simp add: upt_conv_Cons)

lemma mem_2x2_values:
  "mem_2x2 0 = f32_of_int 1" "mem_2x2 (Suc 0) = f32_of_int 2"
  "mem_2x2 2 = f32_of_int 3" "mem_2x2 (Suc (Suc 0)) = f32_of_int 3" "mem_2x2 3 = f32_of_int 4"
  "mem_2x2 8 = f32_of_int 9" "mem_2x2 9 = f32_of_int 10"
  "mem_2x2 12 = f32_of_int 13" "mem_2x2 13 = f32_of_int 14"
  "mem_2x2 16 = f32_of_int 17"
  by (simp_all add: mem_2x2_def mem_of_list_def numeral_2_eq_2 [symmetric])

lemma ref_product_2x2:
  "ref_product mem_2x2 0 8 2 2 2 0 0 = (f32_of_int (- 28), f32_of_int 122)"
  unfolding ref_product_def upt_2
  by (simp add: cmplx_mac_def cmplx_addr_def mem_2x2_values f32_eval)

theorem kernel_writes_view_witness:
  "20 \<notin> dst_addrs 16 3 2 2 \<and>
   plp_mat_mult_cmplx_stride_f32s_xpulpv2 0 8 2 2 2 2 2 3 16 mem_2x2 20 = mem_2x2 20 \<and>
   dst_addrs 16 3 2 2 \<inter> src_addrs 0 8 2 2 2 2 2 = {} \<and>
   cmplx_addr 0 2 1 1 0 \<in> src_addrs 0 8 2 2 2 2 2 \<and>
   plp_mat_mult_cmplx_stride_f32s_xpulpv2 0 8 2 2 2 2 2 3 16 mem_2x2 (cmplx_addr 0 2 1 1 0)
     = mem_2x2 (cmplx_addr 0 2 1 1 0) \<and>
   unat (2 :: u32) \<le> unat (3 :: u32) \<and> 2 * (unat (2 :: u32) * unat (3 :: u32)) \<le> (2 :: nat) ^ 32 \<and>
   card (dst_addrs 16 3 2 2) = 8 \<and>
   mem_2x2 (cmplx_addr 16 3 0 0 0) = f32_of_int 17 \<and>
   plp_mat_mult_cmplx_stride_f32s_xpulpv2 0 8 2 2 2 2 2 3 16 mem_2x2 (cmplx_addr 16 3 0 0 0)
     = f32_of_int (- 28) \<and>
   plp_mat_mult_cmplx_stride_f32s_xpulpv2 0 8 2 2 2 2 2 3 16 mem_2x2 (cmplx_addr 16 3 0 0 1)
     = f32_of_int 122"
proof -
  note f = kernel_writes_view [of 16 3 2 2 0 8 2 2 2 mem_2x2]
  have p: "20 \<notin> dst_addrs 16 3 2 2" using dst_2x2 by auto
  have a: "cmplx_addr 0 2 1 1 0 \<in> src_addrs 0 8 2 2 2 2 2" by (rule src_addrsI) simp_all
  have h: "unat (2 :: u32) \<le> unat (3 :: u32) \<and> 2 * (unat (2 :: u32) * unat (3 :: u32)) \<le> (2 :: nat) ^ 32"
    by simp
  have z: "(0 :: u32) < 2" by simp
  have "plp_mat_mult_cmplx_stride_f32s_xpulpv2 0 8 2 2 2 2 2 3 16 mem_2x2 20 = mem_2x2 20"
    using f [THEN conjunct1, rule_format, OF p] .
  moreover have "plp_mat_mult_cmplx_stride_f32s_xpulpv2 0 8 2 2 2 2 2 3 16 mem_2x2 (cmplx_addr 0 2 1 1 0)
      = mem_2x2 (cmplx_addr 0 2 1 1 0)"
    using f [THEN conjunct2, THEN conjunct1, rule_format, OF views_2x2_disjoint a] .
  moreover have "card (dst_addrs 16 3 2 2) = 8"
    using f [THEN conjunct2, THEN conjunct2, THEN conjunct1, rule_format, OF h] by simp
  moreover have "plp_mat_mult_cmplx_stride_f32s_xpulpv2 0 8 2 2 2 2 2 3 16 mem_2x2 (cmplx_addr 16 3 0 0 0)
        = f32_of_int (- 28) \<and>
      plp_mat_mult_cmplx_stride_f32s_xpulpv2 0 8 2 2 2 2 2 3 16 mem_2x2 (cmplx_addr 16 3 0 0 1)
        = f32_of_int 122"
    using f [THEN conjunct2, THEN conjunct2, THEN conjunct2, rule_format,
        OF conjI [OF h [THEN conjunct1] conjI [OF h [THEN conjunct2] views_2x2_disjoint]] z z]
    by (simp add: ref_product_2x2)
  moreover have "mem_2x2 (cmplx_addr 16 3 0 0 0) = f32_of_int 17"
    by (simp add: cmplx_addr_def mem_2x2_values)
  ultimately show ?thesis using p a views_2x2_disjoint h by simp
qed

theorem empty_reduction_zero_witness:
  "(1 :: u32) < 2 \<and> mem_2x2 (cmplx_addr 0 3 1 1 1) = f32_of_int 10 \<and>
   plp_mat_mult_cmplx_stride_f32s_xpulpv2 0 8 2 0 2 2 2 3 0 mem_2x2 (cmplx_addr 0 3 1 1 1) = f32_zero"
  using empty_reduction_zero [of 1 2 1 2 1 0 8 2 2 3 0 mem_2x2]
  by (simp add: mem_2x2_def mem_of_list_def cmplx_addr_def)

theorem kernel_computes_product_witness:
  "unat (2 :: u32) \<le> unat (3 :: u32) \<and> 2 * (unat (2 :: u32) * unat (3 :: u32)) \<le> (2 :: nat) ^ 32 \<and>
   dst_addrs 16 3 2 2 \<inter> src_addrs 0 8 2 2 2 2 2 = {} \<and> (1 :: u32) < 2 \<and>
   plp_mat_mult_cmplx_stride_f32s_xpulpv2 0 8 2 2 2 2 2 3 16 mem_2x2 (cmplx_addr 16 3 1 1 0)
     = fst (ref_product mem_2x2 0 8 2 2 2 1 1) \<and>
   plp_mat_mult_cmplx_stride_f32s_xpulpv2 0 8 2 2 2 2 2 3 16 mem_2x2 (cmplx_addr 16 3 1 1 1)
     = snd (ref_product mem_2x2 0 8 2 2 2 1 1)"
proof -
  have h: "unat (2 :: u32) \<le> unat (3 :: u32)" "2 * (unat (2 :: u32) * unat (3 :: u32)) \<le> (2 :: nat) ^ 32"
    "(1 :: u32) < 2"
    by simp_all
  show ?thesis
    using kernel_computes_product [OF h(1,2) views_2x2_disjoint h(3) h(3), of mem_2x2]
      views_2x2_disjoint h
    by simp
qed

section \<open>The dispatcher\<close>

text \<open>
  C7: every call asks the run-time for the cluster of the caller and takes exactly one of two
  branches on the answer: the scalar (rv32im) kernel if it is \<^verbatim>\<open>ARCHI_FC_CID\<close>, the
  accelerated (xpulpv2) kernel otherwise, each with the nine arguments as they came. The
  dispatcher keeps nothing between calls: a second call decides on the machine state the
  first one left.
\<close>

theorem dispatcher_selects:
  "plp_mat_mult_cmplx_stride_i32 rt_cluster_id ARCHI_FC_CID rv32im xpulpv2
       pSrcA pSrcB M N OC strideA strideB strideC pDstC w
     = (if rt_cluster_id w = ARCHI_FC_CID
        then rv32im pSrcA pSrcB M N OC strideA strideB strideC pDstC w
        else xpulpv2 pSrcA pSrcB M N OC strideA strideB strideC pDstC w) \<and>
   plp_mat_mult_cmplx_stride_i32 rt_cluster_id ARCHI_FC_CID rv32im xpulpv2
       pSrcA' pSrcB' M' N' OC' strideA' strideB' strideC' pDstC'
       (plp_mat_mult_cmplx_stride_i32 rt_cluster_id ARCHI_FC_CID rv32im xpulpv2
          pSrcA pSrcB M N OC strideA strideB strideC pDstC w)
     = (let w1 = plp_mat_mult_cmplx_stride_i32 rt_cluster_id ARCHI_FC_CID rv32im xpulpv2
                   pSrcA pSrcB M N OC strideA strideB strideC pDstC w
        in if rt_cluster_id w1 = ARCHI_FC_CID
           then rv32im pSrcA' pSrcB' M' N' OC' strideA' strideB' strideC' pDstC' w1
           else xpulpv2 pSrcA' pSrcB' M' N' OC' strideA' strideB' strideC' pDstC' w1)"
  by (simp add: plp_mat_mult_cmplx_stride_i32_def Let_def)

section \<open>The 16-bit complex dot product\<close>

lemma sample_index:
  "(of_nat (2 * (2 * unat (i :: u32))) :: u32) = 4 * i"
  "(of_nat (2 * (2 * unat i) + 1) :: u32) = 4 * i + 1"
  "(of_nat (2 * (2 * unat i + 1)) :: u32) = 4 * i + 2"
  "(of_nat (2 * (2 * unat i + 1) + 1) :: u32) = 4 * i + 3"
  by simp_all

lemma re_pair:
  "(word_of_int (re_term pSrcA pSrcB (2 * unat i) + re_term pSrcA pSrcB (2 * unat i + 1)) :: i32)
     = SUMDOTP2 (builtin_shuffle (pSrcA (4 * i), pSrcA (4 * i + 1)) (pSrcA (4 * i + 2), pSrcA (4 * i + 3)) (0, 2))
         (builtin_shuffle (pSrcB (4 * i), pSrcB (4 * i + 1)) (pSrcB (4 * i + 2), pSrcB (4 * i + 3)) (0, 2)) 0
       - DOTP2 (builtin_shuffle (pSrcA (4 * i), pSrcA (4 * i + 1)) (pSrcA (4 * i + 2), pSrcA (4 * i + 3)) (1, 3))
           (builtin_shuffle (pSrcB (4 * i), pSrcB (4 * i + 1)) (pSrcB (4 * i + 2), pSrcB (4 * i + 3)) (1, 3))"
  unfolding re_term_def sample_index
  by (simp add: SUMDOTP2_def DOTP2_def builtin_shuffle_def v2s_elem_def)

lemma im_pair:
  "(word_of_int (im_term pSrcA pSrcB (2 * unat i) + im_term pSrcA pSrcB (2 * unat i + 1)) :: i32)
     = SUMDOTP2 (pSrcA (4 * i + 2), pSrcA (4 * i + 3))
         (builtin_shuffle (pSrcB (4 * i + 2), pSrcB (4 * i + 3)) (pSrcB (4 * i + 2), pSrcB (4 * i + 3)) (1, 0))
         (SUMDOTP2 (pSrcA (4 * i), pSrcA (4 * i + 1))
            (builtin_shuffle (pSrcB (4 * i), pSrcB (4 * i + 1)) (pSrcB (4 * i), pSrcB (4 * i + 1)) (1, 0)) 0)"
  unfolding im_term_def sample_index
  by (simp add: SUMDOTP2_def DOTP2_def builtin_shuffle_def v2s_elem_def)

lemma ucast_word_of_int_32_16: "(ucast (word_of_int z :: i32) :: i16) = word_of_int z"
  by (simp add: ucast_eq uint_word_of_int_eq word_of_int_eq_iff)

lemma and_1_odd: "(n :: u32) AND 1 \<noteq> 0 \<longleftrightarrow> odd (unat n)"
proof -
  have "n AND 1 \<noteq> 0 \<longleftrightarrow> unat (n mod 2) \<noteq> 0" by (simp add: and_one_eq unat_eq_zero)
  also have "\<dots> \<longleftrightarrow> odd (unat n)" by (simp add: unat_mod odd_iff_mod_2_eq_one)
  finally show ?thesis .
qed

lemma dot_prod_loop_sum:
  "i \<le> loopEnd \<Longrightarrow>
   dot_prod_loop pSrcA pSrcB loopEnd i acc
     = (loopEnd,
        fst acc + word_of_int (\<Sum>k = 2 * unat i..<2 * unat loopEnd. re_term pSrcA pSrcB k),
        snd acc + word_of_int (\<Sum>k = 2 * unat i..<2 * unat loopEnd. im_term pSrcA pSrcB k))"
proof (induction pSrcA pSrcB loopEnd i acc rule: dot_prod_loop.induct)
  case (1 pSrcA pSrcB loopEnd i real_sum imag_sum)
  show ?case
  proof (cases "i < loopEnd")
    case True
    let ?ab = "(pSrcA (4 * i), pSrcA (4 * i + 1))" and ?ef = "(pSrcA (4 * i + 2), pSrcA (4 * i + 3))"
    let ?cd = "(pSrcB (4 * i), pSrcB (4 * i + 1))" and ?gh = "(pSrcB (4 * i + 2), pSrcB (4 * i + 3))"
    let ?r2 = "SUMDOTP2 (builtin_shuffle ?ab ?ef (0, 2)) (builtin_shuffle ?cd ?gh (0, 2)) real_sum
                 - DOTP2 (builtin_shuffle ?ab ?ef (1, 3)) (builtin_shuffle ?cd ?gh (1, 3))"
    let ?m2 = "SUMDOTP2 ?ef (builtin_shuffle ?gh ?gh (1, 0))
                 (SUMDOTP2 ?ab (builtin_shuffle ?cd ?cd (1, 0)) imag_sum)"
    have step: "dot_prod_loop pSrcA pSrcB loopEnd i (real_sum, imag_sum)
        = dot_prod_loop pSrcA pSrcB loopEnd (i + 1) (?r2, ?m2)"
      by (subst dot_prod_loop.simps) (simp only: True if_True Let_def)
    have r2: "?r2 = real_sum
        + word_of_int (re_term pSrcA pSrcB (2 * unat i) + re_term pSrcA pSrcB (2 * unat i + 1))"
      unfolding re_pair by (simp add: SUMDOTP2_def)
    have m2: "?m2 = imag_sum
        + word_of_int (im_term pSrcA pSrcB (2 * unat i) + im_term pSrcA pSrcB (2 * unat i + 1))"
      unfolding im_pair by (simp add: SUMDOTP2_def)
    have lt: "unat i < unat loopEnd" using True by (simp add: word_less_nat_alt)
    have split: "(\<Sum>k = 2 * unat i..<2 * unat loopEnd. f k)
        = f (2 * unat i) + f (2 * unat i + 1) + (\<Sum>k = 2 * unat (i + 1)..<2 * unat loopEnd. f k)"
      for f :: "nat \<Rightarrow> int"
      using lt by (simp add: unat_less_Suc [OF True] sum.atLeast_Suc_lessThan)
    have "i + 1 \<le> loopEnd" using True by (rule word_Suc_le)
    then have "dot_prod_loop pSrcA pSrcB loopEnd (i + 1) (?r2, ?m2)
        = (loopEnd,
           fst (?r2, ?m2) + word_of_int (\<Sum>k = 2 * unat (i + 1)..<2 * unat loopEnd. re_term pSrcA pSrcB k),
           snd (?r2, ?m2) + word_of_int (\<Sum>k = 2 * unat (i + 1)..<2 * unat loopEnd. im_term pSrcA pSrcB k))"
      by (rule "1.IH" [OF True refl refl refl refl refl refl refl refl refl refl refl refl refl refl])
    then show ?thesis
      unfolding step fst_conv snd_conv r2 m2 split [of "re_term pSrcA pSrcB"] split [of "im_term pSrcA pSrcB"]
      by simp
  next
    case False
    then have "i = loopEnd" using "1.prems" by simp
    then show ?thesis by (subst dot_prod_loop.simps) simp
  qed
qed

lemma sum_odd_split:
  "odd (n :: nat) \<Longrightarrow>
   (\<Sum>k<n. f k) = (\<Sum>k = 0..<2 * (n div 2). f k) + (f (2 * (n div 2)) :: int)"
proof -
  assume "odd n"
  then have "n = Suc (2 * (n div 2))" by presburger
  then have "(\<Sum>k<n. f k) = (\<Sum>k<Suc (2 * (n div 2)). f k)" by simp
  then show ?thesis by (simp add: lessThan_atLeast0)
qed

lemma sum_even_split:
  "even (n :: nat) \<Longrightarrow> (\<Sum>k<n. f k) = (\<Sum>k = 0..<2 * (n div 2). (f k :: int))"
  by (simp add: lessThan_atLeast0)

text \<open>
  C10: for every \<open>numSamples\<close>, even or odd, the value delivered through
  \<^verbatim>\<open>realResult\<close> is the exact integer sum over all samples of
  \<open>a_re * b_re - a_im * b_im\<close> reduced modulo \<open>2^16\<close> (\<open>word_of_int\<close> into a 16-bit
  word), and the one delivered through \<^verbatim>\<open>imagResult\<close> is that of
  \<open>a_re * b_im + a_im * b_re\<close>: the 32-bit accumulators wrap, and the store keeps their low
  16 bits.
\<close>

theorem dot_prod_low_16_bits:
  "plp_cmplx_dot_prod_i16_xpulpv2 pSrcA pSrcB numSamples
     = (word_of_int (\<Sum>k<unat numSamples. re_term pSrcA pSrcB k),
        word_of_int (\<Sum>k<unat numSamples. im_term pSrcA pSrcB k))"
proof -
  let ?h = "numSamples div 2"
  let ?Sre = "\<Sum>k = 0..<2 * (unat numSamples div 2). re_term pSrcA pSrcB k"
  let ?Sim = "\<Sum>k = 0..<2 * (unat numSamples div 2). im_term pSrcA pSrcB k"
  let ?Tre = "re_term pSrcA pSrcB (2 * (unat numSamples div 2))"
  let ?Tim = "im_term pSrcA pSrcB (2 * (unat numSamples div 2))"
  have h: "unat ?h = unat numSamples div 2" by (simp add: unat_div)
  have loop: "dot_prod_loop pSrcA pSrcB ?h 0 (0, 0) = (?h, word_of_int ?Sre, word_of_int ?Sim)"
    using dot_prod_loop_sum [of 0 ?h pSrcA pSrcB "(0, 0)"] by (simp add: h)
  have tail_re: "(scast (pSrcA (4 * ?h)) :: i32) * scast (pSrcB (4 * ?h))
        - scast (pSrcA (4 * ?h + 1)) * scast (pSrcB (4 * ?h + 1)) = word_of_int ?Tre"
    unfolding re_term_def h [symmetric] sample_index by simp
  have tail_im: "(scast (pSrcA (4 * ?h)) :: i32) * scast (pSrcB (4 * ?h + 1))
        + scast (pSrcA (4 * ?h + 1)) * scast (pSrcB (4 * ?h)) = word_of_int ?Tim"
    unfolding im_term_def h [symmetric] sample_index by simp
  show ?thesis
  proof (cases "odd (unat numSamples)")
    case True
    then have "numSamples AND 1 \<noteq> 0" using and_1_odd [of numSamples] by blast
    then have "plp_cmplx_dot_prod_i16_xpulpv2 pSrcA pSrcB numSamples
        = (ucast (word_of_int ?Sre + word_of_int ?Tre :: i32),
           ucast (word_of_int ?Sim + word_of_int ?Tim :: i32))"
      unfolding plp_cmplx_dot_prod_i16_xpulpv2_def Let_def loop
      by (simp only: if_True not_False_eq_True prod.case tail_re tail_im)
    also have "\<dots> = (word_of_int (?Sre + ?Tre), word_of_int (?Sim + ?Tim))"
      by (simp only: of_int_add [symmetric] ucast_word_of_int_32_16)
    finally show ?thesis by (simp only: sum_odd_split [OF True])
  next
    case False
    then have "numSamples AND 1 = 0" using and_1_odd [of numSamples] by blast
    then have "plp_cmplx_dot_prod_i16_xpulpv2 pSrcA pSrcB numSamples
        = (ucast (word_of_int ?Sre :: i32), ucast (word_of_int ?Sim :: i32))"
      unfolding plp_cmplx_dot_prod_i16_xpulpv2_def Let_def loop
      by (simp only: if_False not_True_eq_False simp_thms prod.case)
    also have "\<dots> = (word_of_int ?Sre, word_of_int ?Sim)"
      by (simp only: ucast_word_of_int_32_16)
    finally show ?thesis
      using False by (simp only: sum_even_split [of "unat numSamples"] not_not simp_thms)
  qed
qed

theorem dot_prod_low_16_bits_witness:
  "plp_cmplx_dot_prod_i16_xpulpv2 vec_300 vec_300 1 = (24464, 0)"
  using dot_prod_low_16_bits [of vec_300 vec_300 1]
  by (simp add: re_term_def im_term_def vec_300_def)

end
